theory Spec2Isabelle
  imports Main
begin

section \<open>JavaScript values and the capability probes\<close>

text \<open>
  The probes of \<^verbatim>\<open>viewNode.ts\<close> look a member up by name on an arbitrary object and test
  what they find. An object is therefore a total lookup from member names to values, where a
  member that is absent reads as \<open>Undefined\<close>, as a JavaScript property read does.
  A function value is a code pointer: the model has no operation that calls it.
\<close>

datatype jsval =
    Undefined
  | Null
  | Boolean bool
  | Number int
  | String string
  | Function nat
  | Object nat

type_synonym jsobj = "string \<Rightarrow> jsval"

definition empty_object :: jsobj where
  "empty_object = (\<lambda>m. Undefined)"

fun typeof :: "jsval \<Rightarrow> string" where
  "typeof Undefined = ''undefined''"
| "typeof Null = ''object''"
| "typeof (Boolean b) = ''boolean''"
| "typeof (Number i) = ''number''"
| "typeof (String s) = ''string''"
| "typeof (Function f) = ''function''"
| "typeof (Object a) = ''object''"

text \<open>
  Modelled from the spec: \<^verbatim>\<open>Functions.is(o, prop)\<close> lives in \<^verbatim>\<open>../../system\<close>, whose
  source is not among the files embedded here. The spec describes the probes built on it as
  returning true iff "the member exists", without invoking it; the helper is that test.
\<close>

definition Functions_is :: "jsobj \<Rightarrow> string \<Rightarrow> bool" where
  "Functions_is o' prop = (o' prop \<noteq> Undefined)"

definition nodeSupportsClearing :: "jsobj \<Rightarrow> bool" where
  "nodeSupportsClearing node = (typeof (node ''clear'') = ''function'')"

definition nodeSupportsConditionalDismissal :: "jsobj \<Rightarrow> bool" where
  "nodeSupportsConditionalDismissal node = (typeof (node ''canDismiss'') = ''function'')"

definition PageableViewNode_is :: "jsobj \<Rightarrow> bool" where
  "PageableViewNode_is node = Functions_is node ''loadMore''"

definition viewSupportsAutoRefresh :: "jsobj \<Rightarrow> bool" where
  "viewSupportsAutoRefresh view = Functions_is view ''onDidChangeAutoRefresh''"

definition viewSupportsNodeDismissal :: "jsobj \<Rightarrow> bool" where
  "viewSupportsNodeDismissal view = (typeof (view ''dismissNode'') = ''function'')"

text \<open>What the spec's pageable contract lists: \<^verbatim>\<open>loadMore\<close>, \<^verbatim>\<open>hasMore\<close>, \<^verbatim>\<open>limit\<close> and an identity.\<close>

definition exposes_pageable_members :: "jsobj \<Rightarrow> bool" where
  "exposes_pageable_members node =
     (node ''loadMore'' \<noteq> Undefined \<and> node ''hasMore'' \<noteq> Undefined \<and>
      node ''limit'' \<noteq> Undefined \<and> node ''id'' \<noteq> Undefined)"

section \<open>Objects, promises and the event log\<close>

type_synonym addr = nat
type_synonym vid = nat
type_synonym pid = nat
type_synonym disposable = nat

datatype TreeItemCollapsibleState = NoneState | Collapsed | Expanded

text \<open>
  A promise settles once, either fulfilled with a value or rejected. The only promised values
  of this file are \<^verbatim>\<open>Disposable | undefined\<close> (a subscription) and \<^verbatim>\<open>void\<close>, which is
  \<open>Fulfilled None\<close>.
\<close>

datatype outcome = Fulfilled "disposable option" | Rejected

datatype pstate = Pending | Settled outcome

text \<open>
  What the subtype's abstract \<^verbatim>\<open>subscribe()\<close> does when called: throw, return a value
  (a Disposable or undefined), or return a promise that the subtype settles later.
\<close>

datatype subscribe_behaviour = SubThrows | SubReturns "disposable option" | SubReturnsPromise

datatype gated_method = M_triggerChange | M_ensureSubscription

text \<open>
  The code after an \<^verbatim>\<open>await\<close>, or a \<^verbatim>\<open>then\<close>/\<^verbatim>\<open>catch\<close> callback, waiting for a promise.
  The promise carried by a frame is the one the frame settles when it has run.
\<close>

datatype frame =
    UnsubscribeResume addr pid
  | EnsureResume addr pid
  | GateRelease gated_method addr pid

datatype event =
    Call_triggerChange addr bool bool
  | RefreshNode vid addr bool bool
  | Call_ensureSubscription addr
  | Return_ensureSubscription addr bool
  | Call_unsubscribe addr
  | Call_subscribe addr
  | Dispose disposable
  | OnStateChanged addr TreeItemCollapsibleState
  | OnParentStateChanged addr TreeItemCollapsibleState

record view =
  visible :: bool
  autoRefresh :: bool
  vmembers :: jsobj

text \<open>
  A node object. \<open>splatted\<close>, \<open>parent\<close> and \<open>nview\<close> are the fields of \<^verbatim>\<open>ViewNode\<close>;
  the fields with a leading \<open>f_\<close> are the underscore fields of \<^verbatim>\<open>SubscribeableViewNode\<close>
  (\<^verbatim>\<open>_disposable\<close>, \<^verbatim>\<open>_subscription\<close>, \<^verbatim>\<open>_canSubscribe\<close>, \<^verbatim>\<open>_state\<close>). \<open>members\<close> holds
  the optional members a subtype may define (the hooks \<^verbatim>\<open>onStateChanged\<close> and
  \<^verbatim>\<open>onParentStateChanged\<close> among them), \<open>subscribe_impl\<close> the subtype's \<^verbatim>\<open>subscribe()\<close>.
  The two gate fields are the per-instance in-flight slots of the \<^verbatim>\<open>@gate()\<close> decorator.
\<close>

record node =
  splatted :: bool
  parent :: "addr option"
  nview :: vid
  f_disposable :: "disposable option"
  f_subscription :: "pid option"
  f_canSubscribe :: bool
  f_state :: "TreeItemCollapsibleState option"
  members :: jsobj
  subscribe_impl :: subscribe_behaviour
  gate_triggerChange :: "pid option"
  gate_ensureSubscription :: "pid option"

record state =
  nodes :: "addr \<Rightarrow> node"
  views :: "vid \<Rightarrow> view"
  promises :: "pid \<Rightarrow> pstate"
  next_pid :: pid
  reactions :: "(pid \<times> frame) list"
  microtasks :: "(frame \<times> outcome) list"
  log :: "event list"

definition upd_node :: "addr \<Rightarrow> (node \<Rightarrow> node) \<Rightarrow> state \<Rightarrow> state" where
  "upd_node n f s = s\<lparr>nodes := (nodes s)(n := f (nodes s n))\<rparr>"

definition emit :: "event \<Rightarrow> state \<Rightarrow> state" where
  "emit e s = s\<lparr>log := log s @ [e]\<rparr>"

subsection \<open>Promises\<close>

definition new_promise :: "pstate \<Rightarrow> state \<Rightarrow> pid \<times> state" where
  "new_promise st s =
     (next_pid s, s\<lparr>promises := (promises s)(next_pid s := st), next_pid := Suc (next_pid s)\<rparr>)"

text \<open>
  Settling a pending promise queues its reactions, in the order they were registered, as
  microtasks; settling a settled promise does nothing.
\<close>

definition settle :: "pid \<Rightarrow> outcome \<Rightarrow> state \<Rightarrow> state" where
  "settle p out s =
     (case promises s p of
        Settled x \<Rightarrow> s
      | Pending \<Rightarrow>
          s\<lparr>promises := (promises s)(p := Settled out),
            microtasks := microtasks s @ map (\<lambda>r. (snd r, out)) (filter (\<lambda>r. fst r = p) (reactions s)),
            reactions := filter (\<lambda>r. fst r \<noteq> p) (reactions s)\<rparr>)"

text \<open>
  \<^verbatim>\<open>await p\<close> (and \<^verbatim>\<open>p.then\<close>): the continuation never runs inside the current call. It is
  registered on a pending promise, and queued as a microtask when the promise is settled.
\<close>

definition await :: "pid \<Rightarrow> frame \<Rightarrow> state \<Rightarrow> state" where
  "await p k s =
     (case promises s p of
        Pending \<Rightarrow> s\<lparr>reactions := reactions s @ [(p, k)]\<rparr>
      | Settled out \<Rightarrow> s\<lparr>microtasks := microtasks s @ [(k, out)]\<rparr>)"

subsection \<open>The microtask queue\<close>

definition set_gate_slot :: "gated_method \<Rightarrow> pid option \<Rightarrow> node \<Rightarrow> node" where
  "set_gate_slot m v nd =
     (case m of M_triggerChange \<Rightarrow> nd\<lparr>gate_triggerChange := v\<rparr>
              | M_ensureSubscription \<Rightarrow> nd\<lparr>gate_ensureSubscription := v\<rparr>)"

text \<open>
  One continuation, run with the outcome of the promise it waited for.
  \<^item> \<open>UnsubscribeResume\<close> is the rest of \<^verbatim>\<open>unsubscribe()\<close> after
    \<^verbatim>\<open>await subscriptionPromise\<close>: dispose the subscription unless it is undefined. A rejected
    promise makes the \<^verbatim>\<open>await\<close> throw, so nothing is disposed and the call rejects.
  \<^item> \<open>EnsureResume\<close> is the rest of \<^verbatim>\<open>ensureSubscription()\<close> after either of its
    \<^verbatim>\<open>await\<close>s: it returns, or throws what the awaited promise was rejected with.
  \<^item> \<open>GateRelease\<close> is the gate's callback: it frees the in-flight slot and passes the
    outcome on.
\<close>

fun run_frame :: "frame \<Rightarrow> outcome \<Rightarrow> state \<Rightarrow> state" where
  "run_frame (UnsubscribeResume n r) (Fulfilled None) s = settle r (Fulfilled None) s"
| "run_frame (UnsubscribeResume n r) (Fulfilled (Some subscription)) s =
     settle r (Fulfilled None) (emit (Dispose subscription) s)"
| "run_frame (UnsubscribeResume n r) Rejected s = settle r Rejected s"
| "run_frame (EnsureResume n r) (Fulfilled v) s =
     settle r (Fulfilled None) (emit (Return_ensureSubscription n True) s)"
| "run_frame (EnsureResume n r) Rejected s =
     settle r Rejected (emit (Return_ensureSubscription n False) s)"
| "run_frame (GateRelease m n g) out s = settle g out (upd_node n (set_gate_slot m None) s)"

text \<open>
  Draining the queue: the microtasks run in order until none is left. A frame can queue
  further microtasks only by settling a promise, which moves reactions into the queue, so
  the number of queued microtasks plus registered reactions bounds the number of steps.
\<close>

fun run_n :: "nat \<Rightarrow> state \<Rightarrow> state" where
  "run_n 0 s = s"
| "run_n (Suc k) s =
     (case microtasks s of
        [] \<Rightarrow> s
      | t # rest \<Rightarrow> run_n k (run_frame (fst t) (snd t) (s\<lparr>microtasks := rest\<rparr>)))"

definition pending_work :: "state \<Rightarrow> nat" where
  "pending_work s = length (microtasks s) + length (reactions s)"

definition run_microtasks :: "state \<Rightarrow> state" where
  "run_microtasks s = run_n (pending_work s) s"

section \<open>ViewNode\<close>

text \<open>
  \<^verbatim>\<open>getParent\<close> follows parent links of the object graph for as long as the parent is
  splatted. On a graph whose parent links run in a cycle of splatted nodes the source recurses
  without end; the model then has the value \<open>None\<close>. A returned \<open>Some None\<close> is
  \<^verbatim>\<open>undefined\<close>.
\<close>

partial_function (option) getParent :: "(addr \<Rightarrow> node) \<Rightarrow> addr \<Rightarrow> addr option option" where
  [code]: "getParent ns n =
     (case parent (ns n) of
        None \<Rightarrow> Some None
      | Some p \<Rightarrow> if splatted (ns p) then getParent ns p else Some (Some p))"

text \<open>
  The host's \<^verbatim>\<open>view.refreshNode(node, reset, force)\<close>: the call is recorded, and the host
  answers with a promise that it settles when the refresh is done.
\<close>

definition refreshNode :: "vid \<Rightarrow> addr \<Rightarrow> bool \<Rightarrow> bool \<Rightarrow> state \<Rightarrow> pid \<times> state" where
  "refreshNode v n reset force s = new_promise Pending (emit (RefreshNode v n reset force) s)"

text \<open>
  Modelled from the spec: the \<^verbatim>\<open>@gate()\<close> decorator lives in \<^verbatim>\<open>../../system\<close>, whose
  source is not among the files embedded here. The spec describes it as a per-instance
  in-flight slot around the method body: while a call is in flight a further call does not
  run the body but joins the call in flight. \<open>gate_hold\<close> is what the wrapper does once the
  body has returned its promise \<open>r\<close>: it fills the slot with the promise handed to the
  caller, and frees the slot when \<open>r\<close> settles. The join is the first case of
  \<open>triggerChange\<close> and of \<open>ensureSubscription\<close> below. (\<^verbatim>\<open>@debug()\<close> only writes to the
  log output and is left out.)
\<close>

definition gate_hold :: "gated_method \<Rightarrow> addr \<Rightarrow> pid \<Rightarrow> state \<Rightarrow> pid \<times> state" where
  "gate_hold m n r s =
     (let (g, s1) = new_promise Pending s;
          s2 = upd_node n (set_gate_slot m (Some g)) s1
      in (g, await r (GateRelease m n g) s2))"

text \<open>
  \<^verbatim>\<open>triggerChange(reset, force)\<close>: a splatted node that has a parent hands the call to its
  parent; any other node asks its view to refresh it. Like \<^verbatim>\<open>getParent\<close>, the recursion is
  over the object graph, and has the value \<open>None\<close> where the source would recurse without
  end.
\<close>

partial_function (option) triggerChange ::
    "addr \<Rightarrow> bool \<Rightarrow> bool \<Rightarrow> state \<Rightarrow> (pid \<times> state) option" where
  [code]: "triggerChange n reset force s =
     (case gate_triggerChange (nodes s n) of
        Some inflight \<Rightarrow> Some (inflight, emit (Call_triggerChange n reset force) s)
      | None \<Rightarrow>
          Option.bind
            (case parent (nodes s n) of
               None \<Rightarrow>
                 Some (refreshNode (nview (nodes s n)) n reset force
                         (emit (Call_triggerChange n reset force) s))
             | Some p \<Rightarrow>
                 if splatted (nodes s n)
                 then triggerChange p reset force (emit (Call_triggerChange n reset force) s)
                 else Some (refreshNode (nview (nodes s n)) n reset force
                              (emit (Call_triggerChange n reset force) s)))
            (\<lambda>rs. Some (gate_hold M_triggerChange n (fst rs) (snd rs))))"

section \<open>SubscribeableViewNode\<close>

datatype subscribe_result = Threw | Returned "disposable option" | ReturnedPromise pid

definition subscribe :: "addr \<Rightarrow> state \<Rightarrow> subscribe_result \<times> state" where
  "subscribe n s =
     (case subscribe_impl (nodes s n) of
        SubThrows \<Rightarrow> (Threw, emit (Call_subscribe n) s)
      | SubReturns v \<Rightarrow> (Returned v, emit (Call_subscribe n) s)
      | SubReturnsPromise \<Rightarrow>
          (let (p, s1) = new_promise Pending (emit (Call_subscribe n) s)
           in (ReturnedPromise p, s1)))"

definition unsubscribe :: "addr \<Rightarrow> state \<Rightarrow> pid \<times> state" where
  "unsubscribe n s =
     (case f_subscription (nodes s n) of
        None \<Rightarrow> new_promise (Settled (Fulfilled None)) (emit (Call_unsubscribe n) s)
      | Some subscriptionPromise \<Rightarrow>
          (let s1 = upd_node n (\<lambda>nd. nd\<lparr>f_subscription := None\<rparr>) (emit (Call_unsubscribe n) s);
               (r, s2) = new_promise Pending s1
           in (r, await subscriptionPromise (UnsubscribeResume n r) s2)))"

definition dispose :: "addr \<Rightarrow> state \<Rightarrow> state" where
  "dispose n s =
     (let s1 = snd (unsubscribe n s)
      in case f_disposable (nodes s1 n) of
           None \<Rightarrow> s1
         | Some d \<Rightarrow> emit (Dispose d) s1)"

definition canSubscribe :: "state \<Rightarrow> addr \<Rightarrow> bool" where
  "canSubscribe s n = f_canSubscribe (nodes s n)"

text \<open>The condition under which \<^verbatim>\<open>ensureSubscription\<close> does not unsubscribe.\<close>

definition eligible :: "state \<Rightarrow> addr \<Rightarrow> bool" where
  "eligible s n =
     (\<not> (\<not> canSubscribe s n \<or>
         \<not> visible (views s (nview (nodes s n))) \<or>
         (viewSupportsAutoRefresh (vmembers (views s (nview (nodes s n)))) \<and>
          \<not> autoRefresh (views s (nview (nodes s n))))))"

text \<open>
  The body of the async method \<^verbatim>\<open>ensureSubscription\<close>, up to its first \<^verbatim>\<open>await\<close>; the
  result is the promise of the call. \<^verbatim>\<open>Promise.resolve\<close> wraps a returned value into a
  fulfilled promise and returns a returned promise as it is. When \<^verbatim>\<open>subscribe()\<close> throws,
  the assignment to \<^verbatim>\<open>_subscription\<close> is not reached.
\<close>

definition ensureSubscription_body :: "addr \<Rightarrow> state \<Rightarrow> pid \<times> state" where
  "ensureSubscription_body n s =
     (if \<not> eligible s n then
        (let (u, s1) = unsubscribe n s;
             (r, s2) = new_promise Pending s1
         in (r, await u (EnsureResume n r) s2))
      else if f_subscription (nodes s n) \<noteq> None then
        new_promise (Settled (Fulfilled None)) (emit (Return_ensureSubscription n True) s)
      else
        (case subscribe n s of
           (Threw, s1) \<Rightarrow>
             new_promise (Settled Rejected) (emit (Return_ensureSubscription n False) s1)
         | (Returned v, s1) \<Rightarrow>
             (let (sp, s2) = new_promise (Settled (Fulfilled v)) s1;
                  s3 = upd_node n (\<lambda>nd. nd\<lparr>f_subscription := Some sp\<rparr>) s2;
                  (r, s4) = new_promise Pending s3
              in (r, await sp (EnsureResume n r) s4))
         | (ReturnedPromise sp, s1) \<Rightarrow>
             (let s3 = upd_node n (\<lambda>nd. nd\<lparr>f_subscription := Some sp\<rparr>) s1;
                  (r, s4) = new_promise Pending s3
              in (r, await sp (EnsureResume n r) s4))))"

definition ensureSubscription :: "addr \<Rightarrow> state \<Rightarrow> pid \<times> state" where
  "ensureSubscription n s =
     (case gate_ensureSubscription (nodes s n) of
        Some inflight \<Rightarrow> (inflight, emit (Call_ensureSubscription n) s)
      | None \<Rightarrow>
          (let (r, s1) = ensureSubscription_body n (emit (Call_ensureSubscription n) s)
           in gate_hold M_ensureSubscription n r s1))"

definition onVisibilityChanged :: "addr \<Rightarrow> bool \<Rightarrow> state \<Rightarrow> state option" where
  "onVisibilityChanged n e_visible s =
     (let s1 = snd (ensureSubscription n s)
      in if e_visible then map_option snd (triggerChange n False False s1) else Some s1)"

definition onAutoRefreshChanged :: "addr \<Rightarrow> state \<Rightarrow> state option" where
  "onAutoRefreshChanged n s = onVisibilityChanged n (visible (views s (nview (nodes s n)))) s"

definition set_canSubscribe :: "addr \<Rightarrow> bool \<Rightarrow> state \<Rightarrow> state option" where
  "set_canSubscribe n v s =
     (if f_canSubscribe (nodes s n) = v then Some s
      else
        (let s1 = upd_node n (\<lambda>nd. nd\<lparr>f_canSubscribe := v\<rparr>) s;
             s2 = snd (ensureSubscription n s1)
         in if v then map_option snd (triggerChange n False False s2) else Some s2))"

definition onNodeStateChanged ::
    "addr \<Rightarrow> addr \<Rightarrow> TreeItemCollapsibleState \<Rightarrow> state \<Rightarrow> state" where
  "onNodeStateChanged n e_element e_state s =
     (if e_element = n then
        (let s1 = upd_node n (\<lambda>nd. nd\<lparr>f_state := Some e_state\<rparr>) s
         in if members (nodes s1 n) ''onStateChanged'' \<noteq> Undefined
            then emit (OnStateChanged n e_state) s1 else s1)
      else if Some e_element = parent (nodes s n) then
        (if members (nodes s n) ''onParentStateChanged'' \<noteq> Undefined
         then emit (OnParentStateChanged n e_state) s else s)
      else s)"

section \<open>Scenarios and observations\<close>

text \<open>
  The definitions of this section are not code of the source: they name the situations and
  the observations that the properties below are about.
\<close>

subsection \<open>Reading the log\<close>

fun is_subscribe :: "event \<Rightarrow> bool" where
  "is_subscribe (Call_subscribe n) = True"
| "is_subscribe e = False"

fun is_triggerChange :: "event \<Rightarrow> bool" where
  "is_triggerChange (Call_triggerChange n reset force) = True"
| "is_triggerChange e = False"

fun is_refreshNode :: "event \<Rightarrow> bool" where
  "is_refreshNode (RefreshNode v n reset force) = True"
| "is_refreshNode e = False"

text \<open>
  What an async method that awaited a promise with this outcome, and then returns nothing,
  settles its own promise with; and what \<^verbatim>\<open>unsubscribe\<close> disposes of after its \<^verbatim>\<open>await\<close>.
\<close>

fun async_result :: "outcome \<Rightarrow> outcome" where
  "async_result (Fulfilled v) = Fulfilled None"
| "async_result Rejected = Rejected"


subsection \<open>Chains of splatted ancestors\<close>

text \<open>
  \<open>splat_chain ns n xs upper\<close>: the ancestors of \<open>n\<close>, nearest first, are the splatted nodes
  \<open>xs\<close>, and over them comes \<open>upper\<close>: a node that is not splatted, or nothing at all when the
  chain ends at the root.
\<close>

fun splat_chain :: "(addr \<Rightarrow> node) \<Rightarrow> addr \<Rightarrow> addr list \<Rightarrow> addr option \<Rightarrow> bool" where
  "splat_chain ns n [] upper =
     (parent (ns n) = upper \<and> (case upper of None \<Rightarrow> True | Some a \<Rightarrow> \<not> splatted (ns a)))"
| "splat_chain ns n (x # xs) upper =
     (parent (ns n) = Some x \<and> splatted (ns x) \<and> splat_chain ns x xs upper)"

text \<open>
  \<open>delegation_path ns n xs\<close>: a \<^verbatim>\<open>triggerChange\<close> on \<open>n\<close> is handed from splatted node to
  parent along \<open>xs\<close> and ends at a node that is not splatted or has no parent. Parent links
  are set once, in the constructor, to a node that exists already, so every node of a real
  tree has such a path.
\<close>

fun delegation_path :: "(addr \<Rightarrow> node) \<Rightarrow> addr \<Rightarrow> addr list \<Rightarrow> bool" where
  "delegation_path ns n [] = (\<not> splatted (ns n) \<or> parent (ns n) = None)"
| "delegation_path ns n (x # xs) =
     (splatted (ns n) \<and> parent (ns n) = Some x \<and> delegation_path ns x xs)"

subsection \<open>A whole run of ensureSubscription\<close>

text \<open>
  \<open>slot_allocated\<close>: the promise in the node's subscription slot, if any, is one that has
  been created. \<open>calm\<close>: the microtask queue is empty, no \<^verbatim>\<open>ensureSubscription\<close> call is in
  flight on the node, and the continuations that are registered (a refresh waiting for the
  host, say) wait for promises that exist and are not the node's subscription.
\<close>

definition slot_allocated :: "state \<Rightarrow> addr \<Rightarrow> bool" where
  "slot_allocated s n = (case f_subscription (nodes s n) of None \<Rightarrow> True | Some p \<Rightarrow> p < next_pid s)"

definition calm :: "state \<Rightarrow> addr \<Rightarrow> bool" where
  "calm s n =
     (microtasks s = [] \<and>
      gate_ensureSubscription (nodes s n) = None \<and>
      (\<forall>r \<in> set (reactions s).
         fst r < next_pid s \<and> Some (fst r) \<noteq> f_subscription (nodes s n)) \<and>
      slot_allocated s n)"

definition settle_subscription :: "pid option \<Rightarrow> outcome \<Rightarrow> state \<Rightarrow> state" where
  "settle_subscription sp out s = (case sp of None \<Rightarrow> s | Some p \<Rightarrow> settle p out s)"

text \<open>
  A run of \<^verbatim>\<open>ensureSubscription\<close> as a caller that awaits it sees it: the call, which runs
  to its first \<^verbatim>\<open>await\<close>; the microtasks; then the subscription promise that the call waits
  for is settled with \<open>out\<close>, unless it was settled already; then the microtasks again. The
  promise waited for is the one in the slot after the call when the node is eligible, and the
  one that was in the slot before the call when it is not.
\<close>

definition run_ensureSubscription :: "addr \<Rightarrow> outcome \<Rightarrow> state \<Rightarrow> pid \<times> state" where
  "run_ensureSubscription n out s =
     (let (g, s1) = ensureSubscription n s;
          awaited = (if eligible s n then f_subscription (nodes s1 n)
                     else f_subscription (nodes s n))
      in (g, run_microtasks (settle_subscription awaited out (run_microtasks s1))))"


subsection \<open>Concrete objects\<close>

definition demo_node :: "subscribe_behaviour \<Rightarrow> node" where
  "demo_node b =
     \<lparr>splatted = False, parent = None, nview = 0, f_disposable = Some 100,
      f_subscription = None, f_canSubscribe = True, f_state = None,
      members = empty_object, subscribe_impl = b,
      gate_triggerChange = None, gate_ensureSubscription = None\<rparr>"

definition demo_view :: view where
  "demo_view = \<lparr>visible = True, autoRefresh = False, vmembers = empty_object\<rparr>"

text \<open>A visible view without auto-refresh and fresh, unsubscribed nodes at every address.\<close>

definition demo_state :: "subscribe_behaviour \<Rightarrow> state" where
  "demo_state b =
     \<lparr>nodes = (\<lambda>a. demo_node b), views = (\<lambda>v. demo_view), promises = (\<lambda>p. Pending),
      next_pid = 0, reactions = [], microtasks = [], log = []\<rparr>"

text \<open>
  A tree: node 1 is the root and is shown; 2 is its child and 3 the child of 2, both
  splatted; 4 is the child of 3 and defines both state hooks.
\<close>

definition demo_tree :: state where
  "demo_tree =
     (demo_state SubReturnsPromise)
       \<lparr>nodes := (\<lambda>a. demo_node SubReturnsPromise)
          (2 := (demo_node SubReturnsPromise)\<lparr>splatted := True, parent := Some 1\<rparr>,
           3 := (demo_node SubReturnsPromise)\<lparr>splatted := True, parent := Some 2\<rparr>,
           4 := (demo_node SubReturnsPromise)
                  \<lparr>parent := Some 3,
                   members := empty_object(''onStateChanged'' := Function 1,
                                                ''onParentStateChanged'' := Function 2)\<rparr>)\<rparr>"

text \<open>
  Node 1 of \<open>demo_state\<close> after a run of \<^verbatim>\<open>ensureSubscription\<close> in which \<^verbatim>\<open>subscribe()\<close>
  resolved to the Disposable 7; and the same state once the view has been hidden.
\<close>

definition demo_subscribed :: state where
  "demo_subscribed =
     snd (run_ensureSubscription 1 (Fulfilled (Some 7)) (demo_state SubReturnsPromise))"


text \<open>
  Node 1 of \<open>demo_state\<close> while its subscription is pending: \<^verbatim>\<open>ensureSubscription\<close> has
  called \<^verbatim>\<open>subscribe()\<close> and waits for promise 0.
\<close>

definition demo_pending :: state where
  "demo_pending = snd (ensureSubscription 1 (demo_state SubReturnsPromise))"





section \<open>Draining the microtask queue terminates\<close>

text \<open>
  Settling a promise moves reactions into the queue and running a frame takes one microtask
  out, so \<open>pending_work\<close> steps are enough: with that much fuel the queue ends up empty, and
  more fuel changes nothing.
\<close>

lemma pending_work_settle: "pending_work (settle p out s) = pending_work s"
proof (cases "promises s p")
  case Pending
  have "length (filter (\<lambda>r. fst r = p) (reactions s)) + length (filter (\<lambda>r. fst r \<noteq> p) (reactions s))
          = length (reactions s)"
    using sum_length_filter_compl [of "\<lambda>r. fst r = p" "reactions s"] by (simp add: comp_def)
  with Pending show ?thesis by (simp add: settle_def pending_work_def)
next
  case (Settled x)
  then show ?thesis by (simp add: settle_def)
qed

lemma pending_work_emit [simp]: "pending_work (emit e s) = pending_work s"
  by (simp add: pending_work_def emit_def)

lemma pending_work_upd_node [simp]: "pending_work (upd_node n f s) = pending_work s"
  by (simp add: pending_work_def upd_node_def)

lemma pending_work_run_frame: "pending_work (run_frame f out s) = pending_work s"
  by (induction f out s rule: run_frame.induct) (simp_all add: pending_work_settle)

lemma run_n_empty: "microtasks s = [] \<Longrightarrow> run_n k s = s"
  by (cases k) simp_all

lemma run_n_fuel:
  "pending_work s \<le> k \<Longrightarrow> pending_work s \<le> k' \<Longrightarrow> run_n k s = run_n k' s"
proof (induction k arbitrary: k' s)
  case 0
  then have "microtasks s = []" by (simp add: pending_work_def)
  then show ?case by (simp add: run_n_empty)
next
  case (Suc k)
  show ?case
  proof (cases "microtasks s")
    case Nil
    then show ?thesis by (simp add: run_n_empty)
  next
    case (Cons t rest)
    let ?s' = "run_frame (fst t) (snd t) (s\<lparr>microtasks := rest\<rparr>)"
    have w: "Suc (pending_work ?s') = pending_work s"
      using Cons by (simp add: pending_work_run_frame) (simp add: pending_work_def)
    with Suc.prems obtain k'' where k': "k' = Suc k''" by (cases k') auto
    have "run_n k ?s' = run_n k'' ?s'"
      using Suc.prems w k' by (intro Suc.IH) auto
    then show ?thesis using Cons k' by simp
  qed
qed

lemma run_microtasks_unfold:
  "run_microtasks s =
     (case microtasks s of
        [] \<Rightarrow> s
      | t # rest \<Rightarrow> run_microtasks (run_frame (fst t) (snd t) (s\<lparr>microtasks := rest\<rparr>)))"
proof (cases "microtasks s")
  case Nil
  then show ?thesis by (simp add: run_microtasks_def run_n_empty)
next
  case (Cons t rest)
  let ?s' = "run_frame (fst t) (snd t) (s\<lparr>microtasks := rest\<rparr>)"
  have w: "Suc (pending_work ?s') = pending_work s"
    using Cons by (simp add: pending_work_run_frame) (simp add: pending_work_def)
  have "run_n (Suc (pending_work ?s')) s = run_n (pending_work ?s') ?s'"
    using Cons by simp
  then have "run_n (pending_work s) s = run_n (pending_work ?s') ?s'"
    by (simp only: w)
  then show ?thesis by (simp only: run_microtasks_def Cons list.case)
qed

lemma run_n_drains: "pending_work s \<le> k \<Longrightarrow> microtasks (run_n k s) = []"
proof (induction k arbitrary: s)
  case 0
  then show ?case by (simp add: pending_work_def)
next
  case (Suc k)
  show ?case
  proof (cases "microtasks s")
    case Nil
    then show ?thesis by simp
  next
    case (Cons t rest)
    let ?s' = "run_frame (fst t) (snd t) (s\<lparr>microtasks := rest\<rparr>)"
    have w: "Suc (pending_work ?s') = pending_work s"
      using Cons by (simp add: pending_work_run_frame) (simp add: pending_work_def)
    with Suc.prems have "pending_work ?s' \<le> k" by simp
    then show ?thesis using Cons Suc.IH by simp
  qed
qed

lemma run_microtasks_drains: "microtasks (run_microtasks s) = []"
  by (simp add: run_microtasks_def run_n_drains)


section \<open>What a call of ensureSubscription does, path by path\<close>

text \<open>
  The state after the synchronous part of a call, for each path through \<^verbatim>\<open>unsubscribe\<close>
  and \<^verbatim>\<open>ensureSubscription\<close>. Promises are numbered on from \<open>next_pid\<close>.
\<close>

lemma eligible_emit [simp]: "eligible (emit e s) n = eligible s n"
  by (simp add: eligible_def canSubscribe_def emit_def)

lemma nodes_emit [simp]: "nodes (emit e s) = nodes s"
  by (simp add: emit_def)

lemma next_pid_emit [simp]: "next_pid (emit e s) = next_pid s"
  by (simp add: emit_def)

lemma promises_emit [simp]: "promises (emit e s) = promises s"
  by (simp add: emit_def)

lemma unsubscribe_None:
  "f_subscription (nodes s n) = None \<Longrightarrow>
   unsubscribe n s =
     (next_pid s,
      s\<lparr>promises := (promises s)(next_pid s := Settled (Fulfilled None)),
        next_pid := Suc (next_pid s),
        log := log s @ [Call_unsubscribe n]\<rparr>)"
  by (simp add: unsubscribe_def new_promise_def emit_def)

lemma unsubscribe_Pending:
  "f_subscription (nodes s n) = Some p \<Longrightarrow> p < next_pid s \<Longrightarrow> promises s p = Pending \<Longrightarrow>
   unsubscribe n s =
     (next_pid s,
      s\<lparr>nodes := (nodes s)(n := (nodes s n)\<lparr>f_subscription := None\<rparr>),
        promises := (promises s)(next_pid s := Pending),
        next_pid := Suc (next_pid s),
        reactions := reactions s @ [(p, UnsubscribeResume n (next_pid s))],
        log := log s @ [Call_unsubscribe n]\<rparr>)"
  by (simp add: unsubscribe_def new_promise_def emit_def upd_node_def await_def Let_def)

lemma unsubscribe_Settled:
  "f_subscription (nodes s n) = Some p \<Longrightarrow> p < next_pid s \<Longrightarrow> promises s p = Settled out \<Longrightarrow>
   unsubscribe n s =
     (next_pid s,
      s\<lparr>nodes := (nodes s)(n := (nodes s n)\<lparr>f_subscription := None\<rparr>),
        promises := (promises s)(next_pid s := Pending),
        next_pid := Suc (next_pid s),
        microtasks := microtasks s @ [(UnsubscribeResume n (next_pid s), out)],
        log := log s @ [Call_unsubscribe n]\<rparr>)"
  by (simp add: unsubscribe_def new_promise_def emit_def upd_node_def await_def Let_def)

lemma ensureSubscription_joined:
  "gate_ensureSubscription (nodes s n) = Some g \<Longrightarrow>
   ensureSubscription n s = (g, s\<lparr>log := log s @ [Call_ensureSubscription n]\<rparr>)"
  by (simp add: ensureSubscription_def emit_def)

lemma ensureSubscription_unsubscribed_ineligible:
  assumes "\<not> eligible s n" "f_subscription (nodes s n) = None"
    and "gate_ensureSubscription (nodes s n) = None"
  shows "ensureSubscription n s =
    (Suc (Suc (next_pid s)),
     s\<lparr>nodes := (nodes s)(n := (nodes s n)\<lparr>gate_ensureSubscription := Some (Suc (Suc (next_pid s)))\<rparr>),
       promises := (promises s)(next_pid s := Settled (Fulfilled None), Suc (next_pid s) := Pending, Suc (Suc (next_pid s)) := Pending),
       next_pid := Suc (Suc (Suc (next_pid s))),
       reactions := reactions s @ [(Suc (next_pid s), GateRelease M_ensureSubscription n (Suc (Suc (next_pid s))))],
       microtasks := microtasks s @ [(EnsureResume n (Suc (next_pid s)), Fulfilled None)],
       log := log s @ [Call_ensureSubscription n, Call_unsubscribe n]\<rparr>)"
proof -
  let ?s0 = "emit (Call_ensureSubscription n) s"
  have sl: "f_subscription (nodes ?s0 n) = None" using assms(2) by simp
  have b: "ensureSubscription_body n ?s0 =
    (Suc (next_pid s),
     s\<lparr>promises := (promises s)(next_pid s := Settled (Fulfilled None), Suc (next_pid s) := Pending),
       next_pid := Suc (Suc (next_pid s)),
       microtasks := microtasks s @ [(EnsureResume n (Suc (next_pid s)), Fulfilled None)],
       log := log s @ [Call_ensureSubscription n, Call_unsubscribe n]\<rparr>)"
    using assms(1)
    by (simp add: ensureSubscription_body_def unsubscribe_None [OF sl] new_promise_def await_def)
       (simp add: emit_def)
  show ?thesis
    using assms(3)
    by (simp add: ensureSubscription_def b gate_hold_def new_promise_def upd_node_def await_def
        set_gate_slot_def)
qed

lemma ensureSubscription_unsubscribes_Pending:
  assumes "\<not> eligible s n" "f_subscription (nodes s n) = Some p" "p < next_pid s"
    and "promises s p = Pending"
    and "gate_ensureSubscription (nodes s n) = None"
  shows "ensureSubscription n s =
    (Suc (Suc (next_pid s)),
     s\<lparr>nodes := (nodes s)(n := (nodes s n)\<lparr>f_subscription := None,
                                                 gate_ensureSubscription := Some (Suc (Suc (next_pid s)))\<rparr>),
        promises := (promises s)(next_pid s := Pending, Suc (next_pid s) := Pending, Suc (Suc (next_pid s)) := Pending),
        next_pid := Suc (Suc (Suc (next_pid s))),
        reactions := reactions s @
            [(p, UnsubscribeResume n (next_pid s)), (next_pid s, EnsureResume n (Suc (next_pid s))),
             (Suc (next_pid s), GateRelease M_ensureSubscription n (Suc (Suc (next_pid s))))],
        log := log s @ [Call_ensureSubscription n, Call_unsubscribe n]\<rparr>)"
proof -
  let ?s0 = "emit (Call_ensureSubscription n) s"
  have sl: "f_subscription (nodes ?s0 n) = Some p" and lt: "p < next_pid ?s0"
    and pe: "promises ?s0 p = Pending"
    using assms(2,3,4) by simp_all
  have b: "ensureSubscription_body n ?s0 =
    (Suc (next_pid s),
     s\<lparr>nodes := (nodes s)(n := (nodes s n)\<lparr>f_subscription := None\<rparr>),
        promises := (promises s)(next_pid s := Pending, Suc (next_pid s) := Pending),
        next_pid := Suc (Suc (next_pid s)),
        reactions := reactions s @
            [(p, UnsubscribeResume n (next_pid s)), (next_pid s, EnsureResume n (Suc (next_pid s)))],
        log := log s @ [Call_ensureSubscription n, Call_unsubscribe n]\<rparr>)"
    using assms(1)
    by (simp add: ensureSubscription_body_def unsubscribe_Pending [OF sl lt pe] new_promise_def await_def)
       (simp add: emit_def)
  show ?thesis
    using assms(5)
    by (simp add: ensureSubscription_def b gate_hold_def new_promise_def upd_node_def await_def
        set_gate_slot_def)
qed

lemma ensureSubscription_unsubscribes_Settled:
  assumes "\<not> eligible s n" "f_subscription (nodes s n) = Some p" "p < next_pid s"
    and "promises s p = Settled out"
    and "gate_ensureSubscription (nodes s n) = None"
  shows "ensureSubscription n s =
    (Suc (Suc (next_pid s)),
     s\<lparr>nodes := (nodes s)(n := (nodes s n)\<lparr>f_subscription := None,
                                                 gate_ensureSubscription := Some (Suc (Suc (next_pid s)))\<rparr>),
        promises := (promises s)(next_pid s := Pending, Suc (next_pid s) := Pending, Suc (Suc (next_pid s)) := Pending),
        next_pid := Suc (Suc (Suc (next_pid s))),
        reactions := reactions s @
            [(next_pid s, EnsureResume n (Suc (next_pid s))), (Suc (next_pid s), GateRelease M_ensureSubscription n (Suc (Suc (next_pid s))))],
        microtasks := microtasks s @ [(UnsubscribeResume n (next_pid s), out)],
        log := log s @ [Call_ensureSubscription n, Call_unsubscribe n]\<rparr>)"
proof -
  let ?s0 = "emit (Call_ensureSubscription n) s"
  have sl: "f_subscription (nodes ?s0 n) = Some p" and lt: "p < next_pid ?s0"
    and pe: "promises ?s0 p = Settled out"
    using assms(2,3,4) by simp_all
  have b: "ensureSubscription_body n ?s0 =
    (Suc (next_pid s),
     s\<lparr>nodes := (nodes s)(n := (nodes s n)\<lparr>f_subscription := None\<rparr>),
        promises := (promises s)(next_pid s := Pending, Suc (next_pid s) := Pending),
        next_pid := Suc (Suc (next_pid s)),
        reactions := reactions s @ [(next_pid s, EnsureResume n (Suc (next_pid s)))],
        microtasks := microtasks s @ [(UnsubscribeResume n (next_pid s), out)],
        log := log s @ [Call_ensureSubscription n, Call_unsubscribe n]\<rparr>)"
    using assms(1)
    by (simp add: ensureSubscription_body_def unsubscribe_Settled [OF sl lt pe] new_promise_def await_def)
       (simp add: emit_def)
  show ?thesis
    using assms(5)
    by (simp add: ensureSubscription_def b gate_hold_def new_promise_def upd_node_def await_def
        set_gate_slot_def)
qed

lemma ensureSubscription_already_subscribed:
  assumes "eligible s n" "f_subscription (nodes s n) = Some p"
    and "gate_ensureSubscription (nodes s n) = None"
  shows "ensureSubscription n s =
    (Suc (next_pid s),
     s\<lparr>nodes := (nodes s)(n := (nodes s n)\<lparr>gate_ensureSubscription := Some (Suc (next_pid s))\<rparr>),
        promises := (promises s)(next_pid s := Settled (Fulfilled None), Suc (next_pid s) := Pending),
        next_pid := Suc (Suc (next_pid s)),
        microtasks := microtasks s @ [(GateRelease M_ensureSubscription n (Suc (next_pid s)), Fulfilled None)],
        log := log s @ [Call_ensureSubscription n, Return_ensureSubscription n True]\<rparr>)"
proof -
  let ?s0 = "emit (Call_ensureSubscription n) s"
  have b: "ensureSubscription_body n ?s0 =
    (next_pid s,
     s\<lparr>promises := (promises s)(next_pid s := Settled (Fulfilled None)),
        next_pid := Suc (next_pid s),
        log := log s @ [Call_ensureSubscription n, Return_ensureSubscription n True]\<rparr>)"
    using assms(1,2)
    by (simp add: ensureSubscription_body_def new_promise_def) (simp add: emit_def)
  show ?thesis
    using assms(3)
    by (simp add: ensureSubscription_def b gate_hold_def new_promise_def upd_node_def await_def
        set_gate_slot_def)
qed

lemma ensureSubscription_subscribe_throws:
  assumes "eligible s n" "f_subscription (nodes s n) = None"
    and "subscribe_impl (nodes s n) = SubThrows"
    and "gate_ensureSubscription (nodes s n) = None"
  shows "ensureSubscription n s =
    (Suc (next_pid s),
     s\<lparr>nodes := (nodes s)(n := (nodes s n)\<lparr>gate_ensureSubscription := Some (Suc (next_pid s))\<rparr>),
        promises := (promises s)(next_pid s := Settled Rejected, Suc (next_pid s) := Pending),
        next_pid := Suc (Suc (next_pid s)),
        microtasks := microtasks s @ [(GateRelease M_ensureSubscription n (Suc (next_pid s)), Rejected)],
        log := log s @ [Call_ensureSubscription n, Call_subscribe n,
                        Return_ensureSubscription n False]\<rparr>)"
proof -
  let ?s0 = "emit (Call_ensureSubscription n) s"
  have b: "ensureSubscription_body n ?s0 =
    (next_pid s,
     s\<lparr>promises := (promises s)(next_pid s := Settled Rejected),
        next_pid := Suc (next_pid s),
        log := log s @ [Call_ensureSubscription n, Call_subscribe n,
                        Return_ensureSubscription n False]\<rparr>)"
    using assms(1,2,3)
    by (simp add: ensureSubscription_body_def subscribe_def new_promise_def) (simp add: emit_def)
  show ?thesis
    using assms(4)
    by (simp add: ensureSubscription_def b gate_hold_def new_promise_def upd_node_def await_def
        set_gate_slot_def)
qed

lemma ensureSubscription_subscribe_returns:
  assumes "eligible s n" "f_subscription (nodes s n) = None"
    and "subscribe_impl (nodes s n) = SubReturns v"
    and "gate_ensureSubscription (nodes s n) = None"
  shows "ensureSubscription n s =
    (Suc (Suc (next_pid s)),
     s\<lparr>nodes := (nodes s)(n := (nodes s n)\<lparr>f_subscription := Some (next_pid s),
                                                 gate_ensureSubscription := Some (Suc (Suc (next_pid s)))\<rparr>),
        promises := (promises s)(next_pid s := Settled (Fulfilled v), Suc (next_pid s) := Pending, Suc (Suc (next_pid s)) := Pending),
        next_pid := Suc (Suc (Suc (next_pid s))),
        reactions := reactions s @ [(Suc (next_pid s), GateRelease M_ensureSubscription n (Suc (Suc (next_pid s))))],
        microtasks := microtasks s @ [(EnsureResume n (Suc (next_pid s)), Fulfilled v)],
        log := log s @ [Call_ensureSubscription n, Call_subscribe n]\<rparr>)"
proof -
  let ?s0 = "emit (Call_ensureSubscription n) s"
  have b: "ensureSubscription_body n ?s0 =
    (Suc (next_pid s),
     s\<lparr>nodes := (nodes s)(n := (nodes s n)\<lparr>f_subscription := Some (next_pid s)\<rparr>),
        promises := (promises s)(next_pid s := Settled (Fulfilled v), Suc (next_pid s) := Pending),
        next_pid := Suc (Suc (next_pid s)),
        microtasks := microtasks s @ [(EnsureResume n (Suc (next_pid s)), Fulfilled v)],
        log := log s @ [Call_ensureSubscription n, Call_subscribe n]\<rparr>)"
    using assms(1,2,3)
    by (simp add: ensureSubscription_body_def subscribe_def new_promise_def upd_node_def await_def)
       (simp add: emit_def)
  show ?thesis
    using assms(4)
    by (simp add: ensureSubscription_def b gate_hold_def new_promise_def upd_node_def await_def
        set_gate_slot_def)
qed

lemma ensureSubscription_subscribe_promise:
  assumes "eligible s n" "f_subscription (nodes s n) = None"
    and "subscribe_impl (nodes s n) = SubReturnsPromise"
    and "gate_ensureSubscription (nodes s n) = None"
  shows "ensureSubscription n s =
    (Suc (Suc (next_pid s)),
     s\<lparr>nodes := (nodes s)(n := (nodes s n)\<lparr>f_subscription := Some (next_pid s),
                                                 gate_ensureSubscription := Some (Suc (Suc (next_pid s)))\<rparr>),
        promises := (promises s)(next_pid s := Pending, Suc (next_pid s) := Pending, Suc (Suc (next_pid s)) := Pending),
        next_pid := Suc (Suc (Suc (next_pid s))),
        reactions := reactions s @
           [(next_pid s, EnsureResume n (Suc (next_pid s))), (Suc (next_pid s), GateRelease M_ensureSubscription n (Suc (Suc (next_pid s))))],
        log := log s @ [Call_ensureSubscription n, Call_subscribe n]\<rparr>)"
proof -
  let ?s0 = "emit (Call_ensureSubscription n) s"
  have b: "ensureSubscription_body n ?s0 =
    (Suc (next_pid s),
     s\<lparr>nodes := (nodes s)(n := (nodes s n)\<lparr>f_subscription := Some (next_pid s)\<rparr>),
        promises := (promises s)(next_pid s := Pending, Suc (next_pid s) := Pending),
        next_pid := Suc (Suc (next_pid s)),
        reactions := reactions s @ [(next_pid s, EnsureResume n (Suc (next_pid s)))],
        log := log s @ [Call_ensureSubscription n, Call_subscribe n]\<rparr>)"
    using assms(1,2,3)
    by (simp add: ensureSubscription_body_def subscribe_def new_promise_def upd_node_def await_def)
       (simp add: emit_def)
  show ?thesis
    using assms(4)
    by (simp add: ensureSubscription_def b gate_hold_def new_promise_def upd_node_def await_def
        set_gate_slot_def)
qed

section \<open>Whole runs of ensureSubscription\<close>

text \<open>
  From a calm state the microtasks of a run can be followed to the end; the continuations
  that were registered before stay where they are.
\<close>

lemma no_waiter:
  "\<forall>r \<in> set xs. fst r \<noteq> p \<Longrightarrow>
   filter (\<lambda>r. fst r = p) xs = [] \<and> filter (\<lambda>r. fst r \<noteq> p) xs = xs"
  by (induction xs) auto

lemma calm_fresh:
  assumes "calm s n" "next_pid s \<le> q"
  shows "filter (\<lambda>r. fst r = q) (reactions s) = []"
    and "filter (\<lambda>r. fst r \<noteq> q) (reactions s) = reactions s"
proof -
  have "\<forall>r \<in> set (reactions s). fst r \<noteq> q"
    using assms by (auto simp: calm_def)
  then show "filter (\<lambda>r. fst r = q) (reactions s) = []"
    and "filter (\<lambda>r. fst r \<noteq> q) (reactions s) = reactions s"
    by (simp_all add: no_waiter)
qed


lemma gate_es_None_idem:
  "gate_ensureSubscription nd = None \<Longrightarrow> nd\<lparr>gate_ensureSubscription := None\<rparr> = nd"
  by (cases nd) simp

lemmas run_simps = run_microtasks_unfold settle_def emit_def upd_node_def set_gate_slot_def
  settle_subscription_def



lemma run_microtasks_Nil: "microtasks s = [] \<Longrightarrow> run_microtasks s = s"
  by (subst run_microtasks_unfold) simp





lemma run_subscribe_throws:
  assumes c: "calm s n" and e: "eligible s n" and sl: "f_subscription (nodes s n) = None"
    and i: "subscribe_impl (nodes s n) = SubThrows"
  shows "run_ensureSubscription n out s =
    (Suc (next_pid s),
     s\<lparr>promises := (promises s)(next_pid s := Settled Rejected, Suc (next_pid s) := Settled Rejected),
       next_pid := Suc (Suc (next_pid s)),
       log := log s @ [Call_ensureSubscription n, Call_subscribe n,
                       Return_ensureSubscription n False]\<rparr>)"
proof -
  have g: "gate_ensureSubscription (nodes s n) = None" and m: "microtasks s = []"
    using c by (simp_all add: calm_def)
  note f = calm_fresh [OF c, of "next_pid s"] calm_fresh [OF c, of "Suc (next_pid s)"]
  show ?thesis
    using e sl m g f
    by (simp add: run_ensureSubscription_def ensureSubscription_subscribe_throws [OF e sl i g]
         run_simps gate_es_None_idem)
qed

lemma run_subscribe_returns:
  assumes c: "calm s n" and e: "eligible s n" and sl: "f_subscription (nodes s n) = None"
    and i: "subscribe_impl (nodes s n) = SubReturns v"
  shows "run_ensureSubscription n out s =
    (Suc (Suc (next_pid s)),
     s\<lparr>nodes := (nodes s)(n := (nodes s n)\<lparr>f_subscription := Some (next_pid s)\<rparr>),
       promises := (promises s)(next_pid s := Settled (Fulfilled v), Suc (next_pid s) := Settled (Fulfilled None),
                                Suc (Suc (next_pid s)) := Settled (Fulfilled None)),
       next_pid := Suc (Suc (Suc (next_pid s))),
       log := log s @ [Call_ensureSubscription n, Call_subscribe n,
                       Return_ensureSubscription n True]\<rparr>)"
proof -
  have g: "gate_ensureSubscription (nodes s n) = None" and m: "microtasks s = []"
    using c by (simp_all add: calm_def)
  note f = calm_fresh [OF c, of "next_pid s"] calm_fresh [OF c, of "Suc (next_pid s)"] calm_fresh [OF c, of "Suc (Suc (next_pid s))"]
  show ?thesis
    using e sl m g f
    by (simp add: run_ensureSubscription_def ensureSubscription_subscribe_returns [OF e sl i g]
         run_simps gate_es_None_idem)
qed

lemma run_subscribe_promise:
  assumes c: "calm s n" and e: "eligible s n" and sl: "f_subscription (nodes s n) = None"
    and i: "subscribe_impl (nodes s n) = SubReturnsPromise"
  shows "run_ensureSubscription n out s =
    (Suc (Suc (next_pid s)),
     s\<lparr>nodes := (nodes s)(n := (nodes s n)\<lparr>f_subscription := Some (next_pid s)\<rparr>),
       promises := (promises s)(next_pid s := Settled out, Suc (next_pid s) := Settled (async_result out),
                                Suc (Suc (next_pid s)) := Settled (async_result out)),
       next_pid := Suc (Suc (Suc (next_pid s))),
       log := log s @ [Call_ensureSubscription n, Call_subscribe n,
                       Return_ensureSubscription n (out \<noteq> Rejected)]\<rparr>)"
proof -
  have g: "gate_ensureSubscription (nodes s n) = None" and m: "microtasks s = []"
    using c by (simp_all add: calm_def)
  note f = calm_fresh [OF c, of "next_pid s"] calm_fresh [OF c, of "Suc (next_pid s)"] calm_fresh [OF c, of "Suc (Suc (next_pid s))"]
  show ?thesis
    using e sl m g f
    by (cases out)
       (simp_all add: run_ensureSubscription_def ensureSubscription_subscribe_promise [OF e sl i g]
         run_simps gate_es_None_idem)
qed

section \<open>Capability probes\<close>

text \<open>
  C9, as the spec states it: a probe is true iff the probed member exists with the expected
  shape, and a value is pageable only when it exposes \<^verbatim>\<open>loadMore\<close>, \<^verbatim>\<open>hasMore\<close>,
  \<^verbatim>\<open>limit\<close> and an identity. The code's \<^verbatim>\<open>PageableViewNode.is\<close> looks at \<^verbatim>\<open>loadMore\<close>
  alone: an object with a \<^verbatim>\<open>loadMore\<close> function and nothing else is reported pageable although
  it has no \<^verbatim>\<open>hasMore\<close>, no \<^verbatim>\<open>limit\<close> and no \<^verbatim>\<open>id\<close>.
\<close>

theorem pageable_probe_counterexample:
  "PageableViewNode_is (empty_object(''loadMore'' := Function 0)) \<and>
   \<not> exposes_pageable_members (empty_object(''loadMore'' := Function 0))"
  by (simp add: PageableViewNode_is_def Functions_is_def exposes_pageable_members_def
      empty_object_def)

lemma typeof_function: "(typeof v = ''function'') = (\<exists>f. v = Function f)"
  by (cases v) simp_all

text \<open>
  C9, amended: \<^verbatim>\<open>nodeSupportsClearing\<close>, \<^verbatim>\<open>nodeSupportsConditionalDismissal\<close> and
  \<^verbatim>\<open>viewSupportsNodeDismissal\<close> are true iff the member \<^verbatim>\<open>clear\<close>, \<^verbatim>\<open>canDismiss\<close>,
  \<^verbatim>\<open>dismissNode\<close> is a function; \<^verbatim>\<open>PageableViewNode.is\<close> and \<^verbatim>\<open>viewSupportsAutoRefresh\<close>
  are true iff the member \<^verbatim>\<open>loadMore\<close>, \<^verbatim>\<open>onDidChangeAutoRefresh\<close> exists, whatever the
  other members are (\<^verbatim>\<open>hasMore\<close>, \<^verbatim>\<open>limit\<close> and the identity are not looked at). No probe
  invokes the member: its answer is the same whichever function the member holds.
\<close>

theorem probes_test_one_member:
  "nodeSupportsClearing node = (\<exists>f. node ''clear'' = Function f) \<and>
   nodeSupportsConditionalDismissal node = (\<exists>f. node ''canDismiss'' = Function f) \<and>
   viewSupportsNodeDismissal view = (\<exists>f. view ''dismissNode'' = Function f) \<and>
   PageableViewNode_is node = (node ''loadMore'' \<noteq> Undefined) \<and>
   viewSupportsAutoRefresh view = (view ''onDidChangeAutoRefresh'' \<noteq> Undefined) \<and>
   nodeSupportsClearing (node(''clear'' := Function f)) =
     nodeSupportsClearing (node(''clear'' := Function g)) \<and>
   nodeSupportsConditionalDismissal (node(''canDismiss'' := Function f)) =
     nodeSupportsConditionalDismissal (node(''canDismiss'' := Function g)) \<and>
   viewSupportsNodeDismissal (view(''dismissNode'' := Function f)) =
     viewSupportsNodeDismissal (view(''dismissNode'' := Function g)) \<and>
   PageableViewNode_is (node(''loadMore'' := Function f)) =
     PageableViewNode_is (node(''loadMore'' := Function g)) \<and>
   viewSupportsAutoRefresh (view(''onDidChangeAutoRefresh'' := Function f)) =
     viewSupportsAutoRefresh (view(''onDidChangeAutoRefresh'' := Function g))"
  by (simp add: nodeSupportsClearing_def nodeSupportsConditionalDismissal_def
      viewSupportsNodeDismissal_def PageableViewNode_is_def viewSupportsAutoRefresh_def
      Functions_is_def typeof_function)

section \<open>Routing of node-state changes\<close>

text \<open>
  C7: \<^verbatim>\<open>onNodeStateChanged\<close> on node \<open>n\<close>. If the event's element is \<open>n\<close> itself, the node
  records the new state and its \<^verbatim>\<open>onStateChanged\<close> hook runs when it is defined. Else, if the
  element is the node's stored parent link, its \<^verbatim>\<open>onParentStateChanged\<close> hook runs when it is
  defined and no state is recorded. Otherwise nothing changes. An absent hook leaves the log as
  it is. The stored link is what is compared, also where \<^verbatim>\<open>getParent()\<close> answers another node.
\<close>

theorem onNodeStateChanged_routing:
  "(e_element = n \<longrightarrow>
      nodes (onNodeStateChanged n e_element e_state s) =
        (nodes s)(n := (nodes s n)\<lparr>f_state := Some e_state\<rparr>) \<and>
      log (onNodeStateChanged n e_element e_state s) =
        (if members (nodes s n) ''onStateChanged'' \<noteq> Undefined
         then log s @ [OnStateChanged n e_state] else log s)) \<and>
   (e_element \<noteq> n \<and> parent (nodes s n) = Some e_element \<longrightarrow>
      nodes (onNodeStateChanged n e_element e_state s) = nodes s \<and>
      log (onNodeStateChanged n e_element e_state s) =
        (if members (nodes s n) ''onParentStateChanged'' \<noteq> Undefined
         then log s @ [OnParentStateChanged n e_state] else log s)) \<and>
   (e_element \<noteq> n \<and> parent (nodes s n) \<noteq> Some e_element \<longrightarrow>
      onNodeStateChanged n e_element e_state s = s)"
  by (auto simp: onNodeStateChanged_def upd_node_def emit_def Let_def)

lemma demo_tree_node4:
  "parent (nodes demo_tree 4) = Some 3 \<and>
   members (nodes demo_tree 4) ''onStateChanged'' = Function 1 \<and>
   members (nodes demo_tree 4) ''onParentStateChanged'' = Function 2 \<and>
   log demo_tree = []"
  by (simp add: demo_tree_def demo_state_def demo_node_def empty_object_def)

theorem onNodeStateChanged_routing_witness:
  "parent (nodes demo_tree 4) = Some 3 \<and>
   getParent (nodes demo_tree) 4 = Some (Some 1) \<and>
   log (onNodeStateChanged 4 4 Expanded demo_tree) = [OnStateChanged 4 Expanded] \<and>
   f_state (nodes (onNodeStateChanged 4 4 Expanded demo_tree) 4) = Some Expanded \<and>
   log (onNodeStateChanged 4 3 Collapsed demo_tree) = [OnParentStateChanged 4 Collapsed] \<and>
   nodes (onNodeStateChanged 4 3 Collapsed demo_tree) = nodes demo_tree \<and>
   onNodeStateChanged 4 1 Collapsed demo_tree = demo_tree"
proof -
  have gp: "getParent (nodes demo_tree) 4 = Some (Some 1)"
    by code_simp
  show ?thesis
    using onNodeStateChanged_routing [where n = 4 and e_element = 4 and e_state = Expanded
        and s = demo_tree]
      onNodeStateChanged_routing [where n = 4 and e_element = 3 and e_state = Collapsed
        and s = demo_tree]
      onNodeStateChanged_routing [where n = 4 and e_element = 1 and e_state = Collapsed
        and s = demo_tree]
      gp demo_tree_node4
    by simp
qed

section \<open>Eligibility decides the subscription slot\<close>

lemma settle_frame [simp]:
  "nodes (settle p out s) = nodes s"
  "views (settle p out s) = views s"
  "log (settle p out s) = log s"
  "next_pid (settle p out s) = next_pid s"
  by (simp_all add: settle_def split: pstate.splits)









section \<open>Idempotence of ensureSubscription\<close>

text \<open>
  C8: while the node is eligible and holds a subscription slot (pending or resolved), a
  further \<^verbatim>\<open>ensureSubscription\<close> call, whether it joins a call in flight or runs the body,
  does not call \<^verbatim>\<open>subscribe()\<close> and leaves the slot as it is. Two calls back to back on an
  eligible, unsubscribed node with no call in flight therefore call \<^verbatim>\<open>subscribe()\<close> exactly
  once: the second call joins the first (it is handed the same promise), the slot is the one
  the first call left, and it holds a subscription unless \<^verbatim>\<open>subscribe()\<close> threw.
\<close>

theorem ensureSubscription_idempotent:
  "(eligible s n \<and> f_subscription (nodes s n) = Some p \<longrightarrow>
      f_subscription (nodes (snd (ensureSubscription n s)) n) = Some p \<and>
      filter is_subscribe (log (snd (ensureSubscription n s))) = filter is_subscribe (log s)) \<and>
   (eligible s n \<and> f_subscription (nodes s n) = None \<and>
    gate_ensureSubscription (nodes s n) = None \<longrightarrow>
      fst (ensureSubscription n (snd (ensureSubscription n s))) = fst (ensureSubscription n s) \<and>
      filter is_subscribe (log (snd (ensureSubscription n (snd (ensureSubscription n s))))) =
        filter is_subscribe (log s) @ [Call_subscribe n] \<and>
      f_subscription (nodes (snd (ensureSubscription n (snd (ensureSubscription n s)))) n) =
        f_subscription (nodes (snd (ensureSubscription n s)) n) \<and>
      (subscribe_impl (nodes s n) \<noteq> SubThrows \<longrightarrow>
         f_subscription (nodes (snd (ensureSubscription n s)) n) = Some (next_pid s)))"
proof (intro conjI impI)
  assume a: "eligible s n \<and> f_subscription (nodes s n) = Some p"
  then have e: "eligible s n" and sl: "f_subscription (nodes s n) = Some p" by simp_all
  show "f_subscription (nodes (snd (ensureSubscription n s)) n) = Some p"
  proof (cases "gate_ensureSubscription (nodes s n)")
    case None
    then show ?thesis using sl by (simp add: ensureSubscription_already_subscribed [OF e sl None])
  next
    case (Some g)
    then show ?thesis using sl by (simp add: ensureSubscription_joined [OF Some])
  qed
  show "filter is_subscribe (log (snd (ensureSubscription n s))) = filter is_subscribe (log s)"
  proof (cases "gate_ensureSubscription (nodes s n)")
    case None
    then show ?thesis by (simp add: ensureSubscription_already_subscribed [OF e sl None])
  next
    case (Some g)
    then show ?thesis by (simp add: ensureSubscription_joined [OF Some])
  qed
next
  assume a: "eligible s n \<and> f_subscription (nodes s n) = None \<and>
    gate_ensureSubscription (nodes s n) = None"
  then have e: "eligible s n" and sl: "f_subscription (nodes s n) = None"
    and g: "gate_ensureSubscription (nodes s n) = None" by simp_all
  have held: "\<exists>h. gate_ensureSubscription (nodes (snd (ensureSubscription n s)) n) = Some h \<and>
                  h = fst (ensureSubscription n s)"
    and once: "filter is_subscribe (log (snd (ensureSubscription n s))) =
                 filter is_subscribe (log s) @ [Call_subscribe n]"
    and kept: "subscribe_impl (nodes s n) \<noteq> SubThrows \<longrightarrow>
                 f_subscription (nodes (snd (ensureSubscription n s)) n) = Some (next_pid s)"
  proof -
    show "\<exists>h. gate_ensureSubscription (nodes (snd (ensureSubscription n s)) n) = Some h \<and>
                  h = fst (ensureSubscription n s)"
      by (cases "subscribe_impl (nodes s n)")
         (simp_all add: ensureSubscription_subscribe_throws [OF e sl _ g]
            ensureSubscription_subscribe_returns [OF e sl _ g]
            ensureSubscription_subscribe_promise [OF e sl _ g])
    show "filter is_subscribe (log (snd (ensureSubscription n s))) =
                 filter is_subscribe (log s) @ [Call_subscribe n]"
      by (cases "subscribe_impl (nodes s n)")
         (simp_all add: ensureSubscription_subscribe_throws [OF e sl _ g]
            ensureSubscription_subscribe_returns [OF e sl _ g]
            ensureSubscription_subscribe_promise [OF e sl _ g])
    show "subscribe_impl (nodes s n) \<noteq> SubThrows \<longrightarrow>
                 f_subscription (nodes (snd (ensureSubscription n s)) n) = Some (next_pid s)"
      by (cases "subscribe_impl (nodes s n)")
         (simp_all add: ensureSubscription_subscribe_throws [OF e sl _ g]
            ensureSubscription_subscribe_returns [OF e sl _ g]
            ensureSubscription_subscribe_promise [OF e sl _ g])
  qed
  from held obtain h where h: "gate_ensureSubscription (nodes (snd (ensureSubscription n s)) n) = Some h"
    and hf: "h = fst (ensureSubscription n s)" by blast
  note j = ensureSubscription_joined [OF h]
  show "fst (ensureSubscription n (snd (ensureSubscription n s))) = fst (ensureSubscription n s)"
    by (simp add: j hf)
  show "filter is_subscribe (log (snd (ensureSubscription n (snd (ensureSubscription n s))))) =
        filter is_subscribe (log s) @ [Call_subscribe n]"
    by (simp add: j once)
  show "f_subscription (nodes (snd (ensureSubscription n (snd (ensureSubscription n s)))) n) =
        f_subscription (nodes (snd (ensureSubscription n s)) n)"
    by (simp add: j)
  assume "subscribe_impl (nodes s n) \<noteq> SubThrows"
  with kept show "f_subscription (nodes (snd (ensureSubscription n s)) n) = Some (next_pid s)"
    by simp
qed

theorem ensureSubscription_idempotent_witness:
  "eligible (demo_state SubReturnsPromise) 1 \<and>
   f_subscription (nodes (demo_state SubReturnsPromise) 1) = None \<and>
   gate_ensureSubscription (nodes (demo_state SubReturnsPromise) 1) = None \<and>
   filter is_subscribe
     (log (snd (ensureSubscription 1 (snd (ensureSubscription 1 (demo_state SubReturnsPromise)))))) =
     [Call_subscribe 1] \<and>
   f_subscription
     (nodes (snd (ensureSubscription 1 (snd (ensureSubscription 1 (demo_state SubReturnsPromise))))) 1) =
     Some 0 \<and>
   eligible demo_subscribed 1 \<and>
   f_subscription (nodes demo_subscribed 1) = Some 0 \<and>
   f_subscription (nodes (snd (ensureSubscription 1 demo_subscribed)) 1) = Some 0 \<and>
   filter is_subscribe (log (snd (ensureSubscription 1 demo_subscribed))) = [Call_subscribe 1]"
proof -
  have a: "eligible (demo_state SubReturnsPromise) 1"
    "f_subscription (nodes (demo_state SubReturnsPromise) 1) = None"
    "gate_ensureSubscription (nodes (demo_state SubReturnsPromise) 1) = None"
    "subscribe_impl (nodes (demo_state SubReturnsPromise) 1) \<noteq> SubThrows"
    "next_pid (demo_state SubReturnsPromise) = 0"
    "log (demo_state SubReturnsPromise) = []"
    by code_simp+
  have b: "eligible demo_subscribed 1" "f_subscription (nodes demo_subscribed 1) = Some 0"
    "filter is_subscribe (log demo_subscribed) = [Call_subscribe 1]"
    by code_simp+
  show ?thesis
    using ensureSubscription_idempotent [of "demo_state SubReturnsPromise" 1 0]
      ensureSubscription_idempotent [of demo_subscribed 1 0] a b
    by simp
qed

section \<open>When subscribe() fails, and when it yields nothing\<close>

text \<open>
  C3, as the spec states it: whenever \<^verbatim>\<open>subscribe()\<close> fails, by throwing or by a rejected
  promise, the node is left with no subscription handle and a later eligible
  \<^verbatim>\<open>ensureSubscription\<close> calls \<^verbatim>\<open>subscribe()\<close> again. On the code this fails for the rejected
  promise: \<^verbatim>\<open>_subscription\<close> was assigned before the \<^verbatim>\<open>await\<close> threw, nothing clears it, and
  the next call, finding the slot set, returns without subscribing.
\<close>

theorem rejected_subscription_counterexample:
  "eligible (demo_state SubReturnsPromise) 1 \<and>
   promises (snd (run_ensureSubscription 1 Rejected (demo_state SubReturnsPromise)))
     (fst (run_ensureSubscription 1 Rejected (demo_state SubReturnsPromise))) = Settled Rejected \<and>
   f_subscription (nodes (snd (run_ensureSubscription 1 Rejected (demo_state SubReturnsPromise))) 1) =
     Some 0 \<and>
   eligible (snd (run_ensureSubscription 1 Rejected (demo_state SubReturnsPromise))) 1 \<and>
   filter is_subscribe
     (log (snd (ensureSubscription 1
        (snd (run_ensureSubscription 1 Rejected (demo_state SubReturnsPromise)))))) =
     [Call_subscribe 1]"
  by code_simp

text \<open>
  C3, amended: a failure of \<^verbatim>\<open>subscribe()\<close> reaches the caller of \<^verbatim>\<open>ensureSubscription\<close>
  either way: the promise handed to the caller is rejected. If \<^verbatim>\<open>subscribe()\<close> threw, the
  node is left unsubscribed (empty slot, no call in flight) and the next eligible
  \<^verbatim>\<open>ensureSubscription\<close> calls \<^verbatim>\<open>subscribe()\<close> again. If \<^verbatim>\<open>subscribe()\<close> returned a
  promise that was then rejected, the slot keeps that rejected promise and the next eligible
  \<^verbatim>\<open>ensureSubscription\<close> does not call \<^verbatim>\<open>subscribe()\<close>.
\<close>

theorem subscribe_failure:
  assumes c: "calm s n" and e: "eligible s n" and sl: "f_subscription (nodes s n) = None"
    and r: "run_ensureSubscription n out s = (g, s')"
  shows "(subscribe_impl (nodes s n) = SubThrows \<longrightarrow>
            promises s' g = Settled Rejected \<and>
            f_subscription (nodes s' n) = None \<and>
            gate_ensureSubscription (nodes s' n) = None \<and>
            eligible s' n \<and>
            filter is_subscribe (log (snd (ensureSubscription n s'))) =
              filter is_subscribe (log s') @ [Call_subscribe n]) \<and>
         (subscribe_impl (nodes s n) = SubReturnsPromise \<and> out = Rejected \<longrightarrow>
            promises s' g = Settled Rejected \<and>
            f_subscription (nodes s' n) = Some (next_pid s) \<and>
            promises s' (next_pid s) = Settled Rejected \<and>
            gate_ensureSubscription (nodes s' n) = None \<and>
            eligible s' n \<and>
            filter is_subscribe (log (snd (ensureSubscription n s'))) =
              filter is_subscribe (log s'))"
proof (intro conjI impI)
  have g: "g = fst (run_ensureSubscription n out s)"
    and s': "s' = snd (run_ensureSubscription n out s)"
    using r by simp_all
  have g0: "gate_ensureSubscription (nodes s n) = None" using c by (simp add: calm_def)
  {
    assume i: "subscribe_impl (nodes s n) = SubThrows"
    note run = run_subscribe_throws [OF c e sl i, of out]
    show "promises s' g = Settled Rejected" by (simp add: g s' run)
    show sl': "f_subscription (nodes s' n) = None" using sl by (simp add: s' run)
    show g': "gate_ensureSubscription (nodes s' n) = None" using g0 by (simp add: s' run)
    show e': "eligible s' n" using e by (simp add: s' run eligible_def canSubscribe_def)
    have i': "subscribe_impl (nodes s' n) = SubThrows" using i by (simp add: s' run)
    show "filter is_subscribe (log (snd (ensureSubscription n s'))) =
              filter is_subscribe (log s') @ [Call_subscribe n]"
      by (simp add: ensureSubscription_subscribe_throws [OF e' sl' i' g'])
  }
  {
    assume a: "subscribe_impl (nodes s n) = SubReturnsPromise \<and> out = Rejected"
    then have i: "subscribe_impl (nodes s n) = SubReturnsPromise" and o: "out = Rejected"
      by simp_all
    note run = run_subscribe_promise [OF c e sl i, of Rejected]
    show "promises s' g = Settled Rejected" by (simp add: g s' o run)
    show sl': "f_subscription (nodes s' n) = Some (next_pid s)" by (simp add: s' o run)
    show "promises s' (next_pid s) = Settled Rejected" by (simp add: s' o run)
    show g': "gate_ensureSubscription (nodes s' n) = None" using g0 by (simp add: s' o run)
    show e': "eligible s' n" using e by (simp add: s' o run eligible_def canSubscribe_def)
    show "filter is_subscribe (log (snd (ensureSubscription n s'))) =
              filter is_subscribe (log s')"
      by (simp add: ensureSubscription_already_subscribed [OF e' sl' g'])
  }
qed

theorem subscribe_failure_witness:
  "calm (demo_state SubThrows) 1 \<and>
   eligible (demo_state SubThrows) 1 \<and>
   f_subscription (nodes (demo_state SubThrows) 1) = None \<and>
   promises (snd (run_ensureSubscription 1 Rejected (demo_state SubThrows)))
     (fst (run_ensureSubscription 1 Rejected (demo_state SubThrows))) = Settled Rejected \<and>
   f_subscription (nodes (snd (run_ensureSubscription 1 Rejected (demo_state SubThrows))) 1) = None \<and>
   filter is_subscribe
     (log (snd (ensureSubscription 1 (snd (run_ensureSubscription 1 Rejected (demo_state SubThrows)))))) =
     [Call_subscribe 1, Call_subscribe 1] \<and>
   calm (demo_state SubReturnsPromise) 1 \<and>
   f_subscription (nodes (snd (run_ensureSubscription 1 Rejected (demo_state SubReturnsPromise))) 1) =
     Some 0 \<and>
   promises (snd (run_ensureSubscription 1 Rejected (demo_state SubReturnsPromise))) 0 =
     Settled Rejected"
proof -
  have a: "calm (demo_state SubThrows) 1" "eligible (demo_state SubThrows) 1"
    "f_subscription (nodes (demo_state SubThrows) 1) = None"
    "subscribe_impl (nodes (demo_state SubThrows) 1) = SubThrows"
    "filter is_subscribe (log (snd (run_ensureSubscription 1 Rejected (demo_state SubThrows)))) =
       [Call_subscribe 1]"
    by code_simp+
  have b: "calm (demo_state SubReturnsPromise) 1" "eligible (demo_state SubReturnsPromise) 1"
    "f_subscription (nodes (demo_state SubReturnsPromise) 1) = None"
    "subscribe_impl (nodes (demo_state SubReturnsPromise) 1) = SubReturnsPromise"
    "next_pid (demo_state SubReturnsPromise) = 0"
    by code_simp+
  show ?thesis
    using subscribe_failure [OF a(1,2,3) surjective_pairing, of Rejected]
      subscribe_failure [OF b(1,2,3) surjective_pairing, of Rejected] a b
    by simp
qed

text \<open>
  C4, as the spec states it: after \<^verbatim>\<open>subscribe()\<close> resolves to no Disposable the node holds no
  subscription again, and a later eligible \<^verbatim>\<open>ensureSubscription\<close> calls \<^verbatim>\<open>subscribe()\<close>
  anew. On the code the slot keeps the promise, resolved to undefined, and the later call
  finds the slot set and returns.
\<close>

theorem empty_subscription_counterexample:
  "eligible (demo_state SubReturnsPromise) 1 \<and>
   promises (snd (run_ensureSubscription 1 (Fulfilled None) (demo_state SubReturnsPromise)))
     (fst (run_ensureSubscription 1 (Fulfilled None) (demo_state SubReturnsPromise))) =
     Settled (Fulfilled None) \<and>
   f_subscription
     (nodes (snd (run_ensureSubscription 1 (Fulfilled None) (demo_state SubReturnsPromise))) 1) =
     Some 0 \<and>
   promises (snd (run_ensureSubscription 1 (Fulfilled None) (demo_state SubReturnsPromise))) 0 =
     Settled (Fulfilled None) \<and>
   eligible (snd (run_ensureSubscription 1 (Fulfilled None) (demo_state SubReturnsPromise))) 1 \<and>
   filter is_subscribe
     (log (snd (ensureSubscription 1
        (snd (run_ensureSubscription 1 (Fulfilled None) (demo_state SubReturnsPromise)))))) =
     [Call_subscribe 1]"
  by code_simp

text \<open>
  C4, amended: when \<^verbatim>\<open>ensureSubscription\<close> runs on an eligible node with no subscription
  outstanding and no call in flight, and \<^verbatim>\<open>subscribe()\<close> does not throw, the slot records the
  promise of the \<^verbatim>\<open>subscribe()\<close> call at once: pending if \<^verbatim>\<open>subscribe()\<close> returned a promise,
  already fulfilled if it returned a value. When that promise is fulfilled, with a Disposable
  or with nothing, the run completes and the slot keeps the promise; a later eligible
  \<^verbatim>\<open>ensureSubscription\<close> does not call \<^verbatim>\<open>subscribe()\<close> and leaves the slot as it is.
\<close>

theorem subscription_recorded_and_kept:
  assumes c: "calm s n" and e: "eligible s n" and sl: "f_subscription (nodes s n) = None"
    and i: "subscribe_impl (nodes s n) \<noteq> SubThrows"
    and r: "run_ensureSubscription n (Fulfilled v) s = (g, s')"
  shows "f_subscription (nodes (snd (ensureSubscription n s)) n) = Some (next_pid s) \<and>
         promises (snd (ensureSubscription n s)) (next_pid s) =
           (case subscribe_impl (nodes s n) of
              SubReturns w \<Rightarrow> Settled (Fulfilled w)
            | b \<Rightarrow> Pending) \<and>
         filter is_subscribe (log (snd (ensureSubscription n s))) =
           filter is_subscribe (log s) @ [Call_subscribe n] \<and>
         g = fst (ensureSubscription n s) \<and>
         promises s' g = Settled (Fulfilled None) \<and>
         f_subscription (nodes s' n) = Some (next_pid s) \<and>
         eligible s' n \<and>
         filter is_subscribe (log (snd (ensureSubscription n s'))) =
           filter is_subscribe (log s') \<and>
         f_subscription (nodes (snd (ensureSubscription n s')) n) = Some (next_pid s)"
proof -
  have g: "g = fst (run_ensureSubscription n (Fulfilled v) s)"
    and s': "s' = snd (run_ensureSubscription n (Fulfilled v) s)"
    using r by simp_all
  have g0: "gate_ensureSubscription (nodes s n) = None" using c by (simp add: calm_def)
  show ?thesis
  proof (cases "subscribe_impl (nodes s n)")
    case SubThrows
    with i show ?thesis by simp
  next
    case (SubReturns w)
    note run = run_subscribe_returns [OF c e sl SubReturns, of "Fulfilled v"]
    note call = ensureSubscription_subscribe_returns [OF e sl SubReturns g0]
    have sl': "f_subscription (nodes s' n) = Some (next_pid s)" by (simp add: s' run)
    have g': "gate_ensureSubscription (nodes s' n) = None" using g0 by (simp add: s' run)
    have e': "eligible s' n" using e by (simp add: s' run eligible_def canSubscribe_def)
    note again = ensureSubscription_already_subscribed [OF e' sl' g']
    have 1: "promises s' g = Settled (Fulfilled None)" by (simp add: g s' run)
    have 2: "g = fst (ensureSubscription n s)" by (simp add: g run call)
    show ?thesis
      using SubReturns sl' e' 1 2 by (simp add: call again)
  next
    case SubReturnsPromise
    note run = run_subscribe_promise [OF c e sl SubReturnsPromise, of "Fulfilled v"]
    note call = ensureSubscription_subscribe_promise [OF e sl SubReturnsPromise g0]
    have sl': "f_subscription (nodes s' n) = Some (next_pid s)" by (simp add: s' run)
    have g': "gate_ensureSubscription (nodes s' n) = None" using g0 by (simp add: s' run)
    have e': "eligible s' n" using e by (simp add: s' run eligible_def canSubscribe_def)
    note again = ensureSubscription_already_subscribed [OF e' sl' g']
    have 1: "promises s' g = Settled (Fulfilled None)" by (simp add: g s' run)
    have 2: "g = fst (ensureSubscription n s)" by (simp add: g run call)
    show ?thesis
      using SubReturnsPromise sl' e' 1 2 by (simp add: call again)
  qed
qed

theorem subscription_recorded_and_kept_witness:
  "calm (demo_state SubReturnsPromise) 1 \<and>
   eligible (demo_state SubReturnsPromise) 1 \<and>
   f_subscription (nodes (demo_state SubReturnsPromise) 1) = None \<and>
   subscribe_impl (nodes (demo_state SubReturnsPromise) 1) \<noteq> SubThrows \<and>
   f_subscription (nodes (snd (ensureSubscription 1 (demo_state SubReturnsPromise))) 1) = Some 0 \<and>
   promises (snd (ensureSubscription 1 (demo_state SubReturnsPromise))) 0 = Pending \<and>
   f_subscription
     (nodes (snd (run_ensureSubscription 1 (Fulfilled None) (demo_state SubReturnsPromise))) 1) =
     Some 0 \<and>
   f_subscription
     (nodes (snd (ensureSubscription 1
        (snd (run_ensureSubscription 1 (Fulfilled None) (demo_state SubReturnsPromise))))) 1) =
     Some 0"
proof -
  have a: "calm (demo_state SubReturnsPromise) 1" "eligible (demo_state SubReturnsPromise) 1"
    "f_subscription (nodes (demo_state SubReturnsPromise) 1) = None"
    "subscribe_impl (nodes (demo_state SubReturnsPromise) 1) \<noteq> SubThrows"
    by code_simp+
  have b: "subscribe_impl (nodes (demo_state SubReturnsPromise) 1) = SubReturnsPromise"
    "next_pid (demo_state SubReturnsPromise) = 0"
    by code_simp+
  show ?thesis
    using subscription_recorded_and_kept [OF a surjective_pairing, of None] a b
    by simp
qed

section \<open>What triggerChange does\<close>

lemma await_frame [simp]:
  "nodes (await p k s) = nodes s"
  "views (await p k s) = views s"
  "log (await p k s) = log s"
  "promises (await p k s) = promises s"
  "next_pid (await p k s) = next_pid s"
  by (simp_all add: await_def split: pstate.splits)

lemma gate_hold_frame:
  "fst (gate_hold m n r s) = next_pid s"
  "nodes (snd (gate_hold m n r s)) = (nodes s)(n := set_gate_slot m (Some (next_pid s)) (nodes s n))"
  "views (snd (gate_hold m n r s)) = views s"
  "log (snd (gate_hold m n r s)) = log s"
  by (simp_all add: gate_hold_def new_promise_def upd_node_def Let_def)

lemma triggerChange_joined:
  "gate_triggerChange (nodes s n) = Some g \<Longrightarrow>
   triggerChange n reset force s = Some (g, s\<lparr>log := log s @ [Call_triggerChange n reset force]\<rparr>)"
  by (subst triggerChange.simps) (simp add: emit_def)

lemma triggerChange_refreshes:
  assumes "gate_triggerChange (nodes s n) = None"
    and "\<not> splatted (nodes s n) \<or> parent (nodes s n) = None"
  shows "triggerChange n reset force s =
    Some (Suc (next_pid s),
      s\<lparr>nodes := (nodes s)(n := (nodes s n)\<lparr>gate_triggerChange := Some (Suc (next_pid s))\<rparr>),
        promises := (promises s)(next_pid s := Pending, Suc (next_pid s) := Pending),
        next_pid := Suc (Suc (next_pid s)),
        reactions := reactions s @ [(next_pid s, GateRelease M_triggerChange n (Suc (next_pid s)))],
        log := log s @ [Call_triggerChange n reset force,
                        RefreshNode (nview (nodes s n)) n reset force]\<rparr>)"
proof -
  have r: "refreshNode (nview (nodes s n)) n reset force (emit (Call_triggerChange n reset force) s) =
    (next_pid s,
     s\<lparr>promises := (promises s)(next_pid s := Pending),
       next_pid := Suc (next_pid s),
       log := log s @ [Call_triggerChange n reset force,
                       RefreshNode (nview (nodes s n)) n reset force]\<rparr>)"
    by (simp add: refreshNode_def new_promise_def) (simp add: emit_def)
  show ?thesis
    using assms
    by (subst triggerChange.simps)
       (auto simp: r gate_hold_def new_promise_def upd_node_def await_def set_gate_slot_def
          split: option.splits)
qed

lemma triggerChange_delegates:
  assumes "gate_triggerChange (nodes s n) = None"
    and "splatted (nodes s n)" and "parent (nodes s n) = Some p"
  shows "triggerChange n reset force s =
    Option.bind (triggerChange p reset force (emit (Call_triggerChange n reset force) s))
      (\<lambda>rs. Some (gate_hold M_triggerChange n (fst rs) (snd rs)))"
  using assms by (subst triggerChange.simps) simp

lemma delegation_path_cong:
  "(\<And>a. splatted (ns' a) = splatted (ns a) \<and> parent (ns' a) = parent (ns a)) \<Longrightarrow>
   delegation_path ns' n xs = delegation_path ns n xs"
  by (induction xs arbitrary: n) simp_all

lemma gate_tc_self: "\<exists>G. nd = nd\<lparr>gate_triggerChange := G\<rparr>"
  by (rule exI [of _ "gate_triggerChange nd"]) simp

lemma triggerChange_returns:
  "delegation_path (nodes s) n xs \<Longrightarrow>
   \<exists>g s'. triggerChange n reset force s = Some (g, s') \<and>
     (\<exists>evs. log s' = log s @ Call_triggerChange n reset force # evs) \<and>
     views s' = views s \<and>
     (\<forall>a. \<exists>G. nodes s' a = (nodes s a)\<lparr>gate_triggerChange := G\<rparr>)"
proof (induction xs arbitrary: n s)
  case Nil
  show ?case
  proof (cases "gate_triggerChange (nodes s n)")
    case None
    have st: "\<not> splatted (nodes s n) \<or> parent (nodes s n) = None" using Nil by simp
    have "\<forall>a. \<exists>G. ((nodes s)(n := (nodes s n)\<lparr>gate_triggerChange := Some (Suc (next_pid s))\<rparr>)) a =
             (nodes s a)\<lparr>gate_triggerChange := G\<rparr>"
    proof
      fix a
      show "\<exists>G. ((nodes s)(n := (nodes s n)\<lparr>gate_triggerChange := Some (Suc (next_pid s))\<rparr>)) a =
             (nodes s a)\<lparr>gate_triggerChange := G\<rparr>"
        by (cases "a = n") (auto simp: gate_tc_self)
    qed
    then show ?thesis
      by (simp add: triggerChange_refreshes [OF None st])
  next
    case (Some g)
    have "\<forall>a. \<exists>G. nodes s a = (nodes s a)\<lparr>gate_triggerChange := G\<rparr>"
      by (simp add: gate_tc_self)
    then show ?thesis by (simp add: triggerChange_joined [OF Some])
  qed
next
  case (Cons x xs)
  then have sp: "splatted (nodes s n)" and pa: "parent (nodes s n) = Some x"
    and path: "delegation_path (nodes s) x xs" by simp_all
  show ?case
  proof (cases "gate_triggerChange (nodes s n)")
    case (Some g)
    have "\<forall>a. \<exists>G. nodes s a = (nodes s a)\<lparr>gate_triggerChange := G\<rparr>"
      by (simp add: gate_tc_self)
    then show ?thesis by (simp add: triggerChange_joined [OF Some])
  next
    case None
    let ?s0 = "emit (Call_triggerChange n reset force) s"
    have "delegation_path (nodes ?s0) x xs" using path by simp
    from Cons.IH [OF this] obtain g s1 evs where
      tc: "triggerChange x reset force ?s0 = Some (g, s1)"
      and lg: "log s1 = log ?s0 @ Call_triggerChange x reset force # evs"
      and vw: "views s1 = views ?s0"
      and nd: "\<forall>a. \<exists>G. nodes s1 a = (nodes ?s0 a)\<lparr>gate_triggerChange := G\<rparr>"
      by blast
    let ?r = "gate_hold M_triggerChange n g s1"
    have eq: "triggerChange n reset force s = Some (fst ?r, snd ?r)"
      by (simp add: triggerChange_delegates [OF None sp pa] tc)
    have l: "log (snd ?r) =
        log s @ Call_triggerChange n reset force # (Call_triggerChange x reset force # evs)"
      by (simp add: gate_hold_frame lg emit_def)
    have v: "views (snd ?r) = views s" by (simp add: gate_hold_frame vw emit_def)
    have n: "\<forall>a. \<exists>G. nodes (snd ?r) a = (nodes s a)\<lparr>gate_triggerChange := G\<rparr>"
    proof
      fix a
      from nd obtain G where G: "nodes s1 a = (nodes s a)\<lparr>gate_triggerChange := G\<rparr>"
        by auto
      show "\<exists>G. nodes (snd ?r) a = (nodes s a)\<lparr>gate_triggerChange := G\<rparr>"
      proof (cases "a = n")
        case True
        have "nodes (snd ?r) a = (nodes s1 a)\<lparr>gate_triggerChange := Some (next_pid s1)\<rparr>"
          by (simp add: gate_hold_frame set_gate_slot_def True)
        also have "\<dots> = (nodes s a)\<lparr>gate_triggerChange := Some (next_pid s1)\<rparr>"
          by (simp add: G)
        finally show ?thesis by blast
      next
        case False
        then have "nodes (snd ?r) a = (nodes s a)\<lparr>gate_triggerChange := G\<rparr>"
          by (simp add: gate_hold_frame G)
        then show ?thesis by blast
      qed
    qed
    show ?thesis using eq l v n by blast
  qed
qed

section \<open>Delegation through splatted ancestors\<close>

lemma getParent_chain: "splat_chain ns n xs upper \<Longrightarrow> getParent ns n = Some upper"
proof (induction xs arbitrary: n)
  case Nil
  then show ?case
    by (subst getParent.simps) (auto split: option.splits)
next
  case (Cons x xs)
  then have "getParent ns x = Some upper" by simp
  with Cons.prems show ?case
    by (subst getParent.simps) simp
qed

lemma splat_chain_suffix:
  "splat_chain ns n (ys @ x # zs) upper \<Longrightarrow> splatted (ns x) \<and> splat_chain ns x zs upper"
  by (induction ys arbitrary: n) auto

lemma triggerChange_chain:
  "splatted (nodes s x) \<Longrightarrow> splat_chain (nodes s) x zs (Some a) \<Longrightarrow>
   \<forall>y \<in> set (x # zs @ [a]). gate_triggerChange (nodes s y) = None \<Longrightarrow>
   \<exists>g s'. triggerChange x reset force s = Some (g, s') \<and>
     filter is_refreshNode (log s') =
       filter is_refreshNode (log s) @ [RefreshNode (nview (nodes s a)) a reset force]"
proof (induction zs arbitrary: x s)
  case Nil
  then have gx: "gate_triggerChange (nodes s x) = None" and ga: "gate_triggerChange (nodes s a) = None"
    and pa: "parent (nodes s x) = Some a" and na: "\<not> splatted (nodes s a)"
    by simp_all
  let ?s0 = "emit (Call_triggerChange x reset force) s"
  have ga0: "gate_triggerChange (nodes ?s0 a) = None" using ga by simp
  have na0: "\<not> splatted (nodes ?s0 a) \<or> parent (nodes ?s0 a) = None" using na by simp
  note top = triggerChange_refreshes [OF ga0 na0, of reset force]
  let ?r = "gate_hold M_triggerChange x (fst (the (triggerChange a reset force ?s0)))
              (snd (the (triggerChange a reset force ?s0)))"
  have eq: "triggerChange x reset force s = Some (fst ?r, snd ?r)"
    by (simp add: triggerChange_delegates [OF gx Nil.prems(1) pa] top)
  have l: "filter is_refreshNode (log (snd ?r)) =
       filter is_refreshNode (log s) @ [RefreshNode (nview (nodes s a)) a reset force]"
    by (simp add: top gate_hold_frame) (simp add: emit_def)
  show ?case using eq l by blast
next
  case (Cons z zs)
  then have gx: "gate_triggerChange (nodes s x) = None"
    and pa: "parent (nodes s x) = Some z" and sz: "splatted (nodes s z)"
    and ch: "splat_chain (nodes s) z zs (Some a)"
    and gs: "\<forall>y \<in> set (z # zs @ [a]). gate_triggerChange (nodes s y) = None"
    by simp_all
  let ?s0 = "emit (Call_triggerChange x reset force) s"
  have "splatted (nodes ?s0 z)" "splat_chain (nodes ?s0) z zs (Some a)"
    "\<forall>y \<in> set (z # zs @ [a]). gate_triggerChange (nodes ?s0 y) = None"
    using sz ch gs by simp_all
  from Cons.IH [OF this] obtain g s1 where
    tc: "triggerChange z reset force ?s0 = Some (g, s1)"
    and lg: "filter is_refreshNode (log s1) =
       filter is_refreshNode (log ?s0) @ [RefreshNode (nview (nodes ?s0 a)) a reset force]"
    by blast
  let ?r = "gate_hold M_triggerChange x g s1"
  have eq: "triggerChange x reset force s = Some (fst ?r, snd ?r)"
    by (simp add: triggerChange_delegates [OF gx Cons.prems(1) pa] tc)
  have l: "filter is_refreshNode (log (snd ?r)) =
       filter is_refreshNode (log s) @ [RefreshNode (nview (nodes s a)) a reset force]"
    using lg by (simp add: gate_hold_frame) (simp add: emit_def)
  show ?case using eq l by blast
qed

text \<open>
  C1: let the ancestors of \<open>n\<close> be the splatted nodes \<open>xs\<close> followed by \<open>upper\<close>, a node that
  is not splatted, or nothing when the chain ends at the root. Then \<^verbatim>\<open>getParent()\<close> on \<open>n\<close>
  returns \<open>upper\<close>. And when \<open>upper\<close> is a node \<open>a\<close> and no \<^verbatim>\<open>triggerChange\<close> call is in flight
  on the chain, \<^verbatim>\<open>triggerChange(reset, force)\<close> on any splatted node \<open>x\<close> of the chain (each has
  a parent) returns, and the host's \<^verbatim>\<open>refreshNode\<close> is called exactly once by it, with
  \<open>a\<close>, \<open>reset\<close> and \<open>force\<close> as arguments: no refresh of \<open>x\<close> itself, which is another node.
\<close>

theorem splatted_chain_delegation:
  assumes "splat_chain (nodes s) n xs upper"
  shows "getParent (nodes s) n = Some upper \<and>
         (\<forall>x a. x \<in> set xs \<and> upper = Some a \<and>
                (\<forall>y \<in> set xs \<union> {a}. gate_triggerChange (nodes s y) = None) \<longrightarrow>
            x \<noteq> a \<and> splatted (nodes s x) \<and> parent (nodes s x) \<noteq> None \<and>
            (\<exists>g s'. triggerChange x reset force s = Some (g, s') \<and>
               filter is_refreshNode (log s') =
                 filter is_refreshNode (log s) @
                 [RefreshNode (nview (nodes s a)) a reset force]))"
proof (intro conjI allI impI)
  show "getParent (nodes s) n = Some upper"
    using assms by (rule getParent_chain)
next
  fix x a
  assume h: "x \<in> set xs \<and> upper = Some a \<and>
                (\<forall>y \<in> set xs \<union> {a}. gate_triggerChange (nodes s y) = None)"
  then obtain ys zs where xs: "xs = ys @ x # zs"
    by (auto simp: in_set_conv_decomp)
  from h have up: "upper = Some a"
    and gates: "\<forall>y \<in> set xs \<union> {a}. gate_triggerChange (nodes s y) = None" by simp_all
  from assms xs up have sx: "splatted (nodes s x)"
    and ch: "splat_chain (nodes s) x zs (Some a)"
    using splat_chain_suffix [of "nodes s" n ys x zs upper] by simp_all
  have na: "\<not> splatted (nodes s a)"
    using ch by (induction zs arbitrary: x) auto
  show "splatted (nodes s x)" by (rule sx)
  show "x \<noteq> a" using sx na by auto
  show "parent (nodes s x) \<noteq> None" using ch by (cases zs) simp_all
  have "\<forall>y \<in> set (x # zs @ [a]). gate_triggerChange (nodes s y) = None"
    using gates xs by auto
  from triggerChange_chain [OF sx ch this]
  show "\<exists>g s'. triggerChange x reset force s = Some (g, s') \<and>
               filter is_refreshNode (log s') =
                 filter is_refreshNode (log s) @
                 [RefreshNode (nview (nodes s a)) a reset force]" .
qed

theorem splatted_chain_delegation_witness:
  "splat_chain (nodes demo_tree) 4 [3, 2] (Some 1) \<and>
   getParent (nodes demo_tree) 4 = Some (Some 1) \<and>
   map_option (\<lambda>r. filter is_refreshNode (log (snd r))) (triggerChange 3 True False demo_tree) =
     Some [RefreshNode 0 1 True False] \<and>
   map_option (\<lambda>r. filter is_refreshNode (log (snd r))) (triggerChange 2 False True demo_tree) =
     Some [RefreshNode 0 1 False True]"
proof -
  have c: "splat_chain (nodes demo_tree) 4 [3, 2] (Some 1)"
    by code_simp
  have g: "\<forall>y \<in> set [3, 2] \<union> {1}. gate_triggerChange (nodes demo_tree y) = None"
    by (simp add: demo_tree_def demo_state_def demo_node_def)
  have v: "nview (nodes demo_tree 1) = 0" "log demo_tree = []"
    by (simp_all add: demo_tree_def demo_state_def demo_node_def)
  note t = splatted_chain_delegation [OF c]
  from t [of True False] g have
    "\<exists>g s'. triggerChange 3 True False demo_tree = Some (g, s') \<and>
       filter is_refreshNode (log s') =
         filter is_refreshNode (log demo_tree) @
         [RefreshNode (nview (nodes demo_tree 1)) 1 True False]"
    by simp
  moreover from t [of False True] g have
    "\<exists>g s'. triggerChange 2 False True demo_tree = Some (g, s') \<and>
       filter is_refreshNode (log s') =
         filter is_refreshNode (log demo_tree) @
         [RefreshNode (nview (nodes demo_tree 1)) 1 False True]"
    by simp
  moreover from t have "getParent (nodes demo_tree) 4 = Some (Some 1)" by simp
  ultimately show ?thesis using c v by auto
qed

section \<open>The handlers: visibility and canSubscribe\<close>

text \<open>
  What the synchronous part of an \<^verbatim>\<open>ensureSubscription\<close> call changes, whatever path it takes:
  the log grows by the call and by events that are no \<^verbatim>\<open>triggerChange\<close> and no refresh; the
  views, the tree and the \<^verbatim>\<open>canSubscribe\<close> flags stay; and the call is in flight afterwards.
\<close>

lemma ensureSubscription_effects:
  assumes a: "slot_allocated s n"
  shows "(\<exists>evs. log (snd (ensureSubscription n s)) = log s @ Call_ensureSubscription n # evs \<and>
            filter is_triggerChange evs = [] \<and> filter is_refreshNode evs = []) \<and>
         views (snd (ensureSubscription n s)) = views s \<and>
         (\<forall>a. splatted (nodes (snd (ensureSubscription n s)) a) = splatted (nodes s a) \<and>
              parent (nodes (snd (ensureSubscription n s)) a) = parent (nodes s a) \<and>
              f_canSubscribe (nodes (snd (ensureSubscription n s)) a) = f_canSubscribe (nodes s a) \<and>
              gate_triggerChange (nodes (snd (ensureSubscription n s)) a) =
                gate_triggerChange (nodes s a)) \<and>
         (\<exists>g. gate_ensureSubscription (nodes (snd (ensureSubscription n s)) n) = Some g \<and>
              (gate_ensureSubscription (nodes s n) = None \<longrightarrow>
                 promises (snd (ensureSubscription n s)) g = Pending)) \<and>
         (\<not> eligible s n \<and> gate_ensureSubscription (nodes s n) = None \<longrightarrow>
            f_subscription (nodes (snd (ensureSubscription n s)) n) = None)"
proof (cases "gate_ensureSubscription (nodes s n)")
  case (Some g)
  show ?thesis using Some by (simp add: ensureSubscription_joined [OF Some])
next
  case None
  show ?thesis
  proof (cases "eligible s n")
    case False
    show ?thesis
    proof (cases "f_subscription (nodes s n)")
      case no: None
      show ?thesis
        using False no
        by (simp add: ensureSubscription_unsubscribed_ineligible [OF False no None])
    next
      case (Some p)
      then have lt: "p < next_pid s" using a by (simp add: slot_allocated_def)
      show ?thesis
      proof (cases "promises s p")
        case Pending
        show ?thesis
          using False
          by (simp add: ensureSubscription_unsubscribes_Pending [OF False Some lt Pending None])
      next
        case (Settled x)
        show ?thesis
          using False
          by (simp add: ensureSubscription_unsubscribes_Settled [OF False Some lt Settled None])
      qed
    qed
  next
    case True
    show ?thesis
    proof (cases "f_subscription (nodes s n)")
      case (Some p)
      show ?thesis
        using True
        by (simp add: ensureSubscription_already_subscribed [OF True Some None])
    next
      case no: None
      show ?thesis
      proof (cases "subscribe_impl (nodes s n)")
        case SubThrows
        show ?thesis
          using True
          by (simp add: ensureSubscription_subscribe_throws [OF True no SubThrows None])
      next
        case (SubReturns v)
        show ?thesis
          using True
          by (simp add: ensureSubscription_subscribe_returns [OF True no SubReturns None])
      next
        case SubReturnsPromise
        show ?thesis
          using True
          by (simp add: ensureSubscription_subscribe_promise [OF True no SubReturnsPromise None])
      qed
    qed
  qed
qed


text \<open>
  C6, as the spec states it: when visibility becomes true, the \<^verbatim>\<open>ensureSubscription()\<close> call
  completes before \<^verbatim>\<open>triggerChange()\<close> is invoked. On the code the handler does not await
  the call (\<^verbatim>\<open>void this.ensureSubscription()\<close>): for an unsubscribed, eligible node the
  refresh is triggered while the call is suspended at its \<^verbatim>\<open>await\<close>, and the call returns
  only in a later microtask, also when \<^verbatim>\<open>subscribe()\<close> returns its Disposable at once. With a
  \<^verbatim>\<open>subscribe()\<close> that returns a promise, the node is still waiting for the subscription
  (its promise is pending) when the refresh is triggered.
\<close>

theorem visibility_order_counterexample:
  "map_option log (onVisibilityChanged 1 True (demo_state (SubReturns (Some 7)))) =
     Some [Call_ensureSubscription 1, Call_subscribe 1,
           Call_triggerChange 1 False False, RefreshNode 0 1 False False] \<and>
   map_option (log \<circ> run_microtasks)
       (onVisibilityChanged 1 True (demo_state (SubReturns (Some 7)))) =
     Some [Call_ensureSubscription 1, Call_subscribe 1,
           Call_triggerChange 1 False False, RefreshNode 0 1 False False,
           Return_ensureSubscription 1 True] \<and>
   f_subscription (nodes (snd (ensureSubscription 1 (demo_state SubReturnsPromise))) 1) = Some 0 \<and>
   promises (snd (ensureSubscription 1 (demo_state SubReturnsPromise))) 0 = Pending \<and>
   map_option log (onVisibilityChanged 1 True (demo_state SubReturnsPromise)) =
     Some [Call_ensureSubscription 1, Call_subscribe 1,
           Call_triggerChange 1 False False, RefreshNode 0 1 False False] \<and>
   map_option (log \<circ> run_microtasks \<circ> settle 0 (Fulfilled (Some 7)) \<circ> run_microtasks)
       (onVisibilityChanged 1 True (demo_state SubReturnsPromise)) =
     Some [Call_ensureSubscription 1, Call_subscribe 1,
           Call_triggerChange 1 False False, RefreshNode 0 1 False False,
           Return_ensureSubscription 1 True]"
  by code_simp

text \<open>
  C6, amended: on a visibility event with \<open>visible = false\<close>, \<^verbatim>\<open>ensureSubscription()\<close> is
  invoked and no \<^verbatim>\<open>triggerChange()\<close> is issued. With \<open>visible = true\<close>,
  \<^verbatim>\<open>ensureSubscription()\<close> is invoked first and \<^verbatim>\<open>triggerChange()\<close> right after its
  synchronous part: at that moment the \<^verbatim>\<open>ensureSubscription()\<close> call is still in flight (its
  gate is held, and the promise of a call started by the handler is pending); for an
  eligible, unsubscribed node with no call in flight whose \<^verbatim>\<open>subscribe()\<close> does not throw,
  \<^verbatim>\<open>subscribe()\<close> has been called and its promise recorded in the slot, and the call has not
  returned.
\<close>

theorem onVisibilityChanged_order:
  assumes a: "slot_allocated s n" and p: "delegation_path (nodes s) n xs"
  shows "onVisibilityChanged n False s = Some (snd (ensureSubscription n s)) \<and>
         (\<exists>evs. log (snd (ensureSubscription n s)) = log s @ Call_ensureSubscription n # evs \<and>
            filter is_triggerChange evs = [] \<and> filter is_refreshNode evs = []) \<and>
         (\<exists>s' evs. onVisibilityChanged n True s = Some s' \<and>
            log s' = log (snd (ensureSubscription n s)) @ Call_triggerChange n False False # evs) \<and>
         (\<exists>g. gate_ensureSubscription (nodes (snd (ensureSubscription n s)) n) = Some g \<and>
            (gate_ensureSubscription (nodes s n) = None \<longrightarrow>
               promises (snd (ensureSubscription n s)) g = Pending)) \<and>
         (eligible s n \<and> f_subscription (nodes s n) = None \<and>
          gate_ensureSubscription (nodes s n) = None \<and>
          subscribe_impl (nodes s n) \<noteq> SubThrows \<longrightarrow>
            log (snd (ensureSubscription n s)) =
              log s @ [Call_ensureSubscription n, Call_subscribe n] \<and>
            f_subscription (nodes (snd (ensureSubscription n s)) n) = Some (next_pid s))"
proof -
  let ?s1 = "snd (ensureSubscription n s)"
  note eff = ensureSubscription_effects [OF a]
  have 1: "onVisibilityChanged n False s = Some ?s1"
    by (simp add: onVisibilityChanged_def)
  have "delegation_path (nodes ?s1) n xs = delegation_path (nodes s) n xs"
    using eff by (intro delegation_path_cong) simp
  with p have "delegation_path (nodes ?s1) n xs" by simp
  from triggerChange_returns [OF this, of False False] obtain g s' evs where
    tc: "triggerChange n False False ?s1 = Some (g, s')"
    and lg: "log s' = log ?s1 @ Call_triggerChange n False False # evs"
    by blast
  have 3: "\<exists>s' evs. onVisibilityChanged n True s = Some s' \<and>
            log s' = log ?s1 @ Call_triggerChange n False False # evs"
    using tc lg by (simp add: onVisibilityChanged_def)
  have 5: "eligible s n \<and> f_subscription (nodes s n) = None \<and>
          gate_ensureSubscription (nodes s n) = None \<and>
          subscribe_impl (nodes s n) \<noteq> SubThrows \<longrightarrow>
            log ?s1 = log s @ [Call_ensureSubscription n, Call_subscribe n] \<and>
            f_subscription (nodes ?s1 n) = Some (next_pid s)"
  proof
    assume h: "eligible s n \<and> f_subscription (nodes s n) = None \<and>
          gate_ensureSubscription (nodes s n) = None \<and>
          subscribe_impl (nodes s n) \<noteq> SubThrows"
    then have e: "eligible s n" and sl: "f_subscription (nodes s n) = None"
      and g0: "gate_ensureSubscription (nodes s n) = None"
      and i: "subscribe_impl (nodes s n) \<noteq> SubThrows" by simp_all
    show "log ?s1 = log s @ [Call_ensureSubscription n, Call_subscribe n] \<and>
            f_subscription (nodes ?s1 n) = Some (next_pid s)"
      using i
      by (cases "subscribe_impl (nodes s n)")
         (simp_all add: ensureSubscription_subscribe_returns [OF e sl _ g0]
            ensureSubscription_subscribe_promise [OF e sl _ g0])
  qed
  show ?thesis using 1 3 5 eff by blast
qed

theorem onVisibilityChanged_order_witness:
  "slot_allocated (demo_state SubReturnsPromise) 1 \<and>
   delegation_path (nodes (demo_state SubReturnsPromise)) 1 [] \<and>
   map_option log (onVisibilityChanged 1 False (demo_state SubReturnsPromise)) =
     Some [Call_ensureSubscription 1, Call_subscribe 1] \<and>
   log (snd (ensureSubscription 1 (demo_state SubReturnsPromise))) =
     [Call_ensureSubscription 1, Call_subscribe 1] \<and>
   f_subscription (nodes (snd (ensureSubscription 1 (demo_state SubReturnsPromise))) 1) = Some 0 \<and>
   map_option log (onVisibilityChanged 1 True (demo_state SubReturnsPromise)) =
     Some [Call_ensureSubscription 1, Call_subscribe 1,
           Call_triggerChange 1 False False, RefreshNode 0 1 False False]"
proof -
  have a: "slot_allocated (demo_state SubReturnsPromise) 1"
    and p: "delegation_path (nodes (demo_state SubReturnsPromise)) 1 []"
    by code_simp+
  have b: "eligible (demo_state SubReturnsPromise) 1"
    "f_subscription (nodes (demo_state SubReturnsPromise) 1) = None"
    "gate_ensureSubscription (nodes (demo_state SubReturnsPromise) 1) = None"
    "subscribe_impl (nodes (demo_state SubReturnsPromise) 1) \<noteq> SubThrows"
    "next_pid (demo_state SubReturnsPromise) = 0" "log (demo_state SubReturnsPromise) = []"
    by code_simp+
  have c: "map_option log (onVisibilityChanged 1 True (demo_state SubReturnsPromise)) =
     Some [Call_ensureSubscription 1, Call_subscribe 1,
           Call_triggerChange 1 False False, RefreshNode 0 1 False False]"
    by code_simp
  show ?thesis
    using onVisibilityChanged_order [OF a p] a p b c by simp
qed

text \<open>
  C10: assigning \<^verbatim>\<open>canSubscribe\<close> the value it has changes nothing at all: the state is the
  same, so neither \<^verbatim>\<open>ensureSubscription()\<close> nor \<^verbatim>\<open>triggerChange()\<close> was invoked. Setting it
  from true to false stores the flag and invokes \<^verbatim>\<open>ensureSubscription()\<close>, which clears the
  slot unless a call is in flight, and triggers no refresh. Setting it from false to true
  stores the flag, invokes \<^verbatim>\<open>ensureSubscription()\<close> and then \<^verbatim>\<open>triggerChange()\<close> with
  \<open>reset\<close> and \<open>force\<close> false.
\<close>

theorem canSubscribe_setter:
  assumes a: "slot_allocated s n" and p: "delegation_path (nodes s) n xs"
  shows "(f_canSubscribe (nodes s n) = v \<longrightarrow> set_canSubscribe n v s = Some s) \<and>
         (f_canSubscribe (nodes s n) \<longrightarrow>
            (\<exists>s' evs. set_canSubscribe n False s = Some s' \<and>
               \<not> f_canSubscribe (nodes s' n) \<and>
               log s' = log s @ Call_ensureSubscription n # evs \<and>
               filter is_triggerChange evs = [] \<and> filter is_refreshNode evs = [] \<and>
               (gate_ensureSubscription (nodes s n) = None \<longrightarrow>
                  f_subscription (nodes s' n) = None))) \<and>
         (\<not> f_canSubscribe (nodes s n) \<longrightarrow>
            (\<exists>s' evs evs'. set_canSubscribe n True s = Some s' \<and>
               f_canSubscribe (nodes s' n) \<and>
               log s' = log s @ Call_ensureSubscription n # evs @
                          Call_triggerChange n False False # evs' \<and>
               filter is_triggerChange evs = [] \<and> filter is_refreshNode evs = []))"
proof (intro conjI impI)
  assume "f_canSubscribe (nodes s n) = v"
  then show "set_canSubscribe n v s = Some s" by (simp add: set_canSubscribe_def)
next
  assume t: "f_canSubscribe (nodes s n)"
  let ?s0 = "upd_node n (\<lambda>nd. nd\<lparr>f_canSubscribe := False\<rparr>) s"
  let ?s1 = "snd (ensureSubscription n ?s0)"
  have a0: "slot_allocated ?s0 n" using a by (simp add: slot_allocated_def upd_node_def split: option.splits)
  note eff = ensureSubscription_effects [OF a0]
  have ne: "\<not> eligible ?s0 n" by (simp add: eligible_def canSubscribe_def upd_node_def)
  have set: "set_canSubscribe n False s = Some ?s1"
    using t by (simp add: set_canSubscribe_def)
  from eff obtain evs where
    l: "log ?s1 = log ?s0 @ Call_ensureSubscription n # evs"
    and f: "filter is_triggerChange evs = []" "filter is_refreshNode evs = []"
    by blast
  have c: "\<not> f_canSubscribe (nodes ?s1 n)" using eff by (simp add: upd_node_def)
  have u: "gate_ensureSubscription (nodes s n) = None \<longrightarrow> f_subscription (nodes ?s1 n) = None"
    using eff ne by (simp add: upd_node_def)
  have l': "log ?s1 = log s @ Call_ensureSubscription n # evs"
    using l by (simp add: upd_node_def)
  show "\<exists>s' evs. set_canSubscribe n False s = Some s' \<and>
               \<not> f_canSubscribe (nodes s' n) \<and>
               log s' = log s @ Call_ensureSubscription n # evs \<and>
               filter is_triggerChange evs = [] \<and> filter is_refreshNode evs = [] \<and>
               (gate_ensureSubscription (nodes s n) = None \<longrightarrow>
                  f_subscription (nodes s' n) = None)"
    using set c l' f u by - (rule exI [of _ ?s1], rule exI [of _ evs], simp)
next
  assume t: "\<not> f_canSubscribe (nodes s n)"
  let ?s0 = "upd_node n (\<lambda>nd. nd\<lparr>f_canSubscribe := True\<rparr>) s"
  let ?s1 = "snd (ensureSubscription n ?s0)"
  have a0: "slot_allocated ?s0 n" using a by (simp add: slot_allocated_def upd_node_def split: option.splits)
  note eff = ensureSubscription_effects [OF a0]
  from eff obtain evs where
    l: "log ?s1 = log ?s0 @ Call_ensureSubscription n # evs"
    and f: "filter is_triggerChange evs = []" "filter is_refreshNode evs = []"
    by blast
  have c: "f_canSubscribe (nodes ?s1 n)" using eff by (simp add: upd_node_def)
  have "delegation_path (nodes ?s1) n xs = delegation_path (nodes s) n xs"
    using eff by (intro delegation_path_cong) (simp add: upd_node_def)
  with p have "delegation_path (nodes ?s1) n xs" by simp
  from triggerChange_returns [OF this, of False False] obtain g s' evs' where
    tc: "triggerChange n False False ?s1 = Some (g, s')"
    and lg: "log s' = log ?s1 @ Call_triggerChange n False False # evs'"
    and nd: "\<forall>a. \<exists>G. nodes s' a = (nodes ?s1 a)\<lparr>gate_triggerChange := G\<rparr>"
    by blast
  from nd obtain G where "nodes s' n = (nodes ?s1 n)\<lparr>gate_triggerChange := G\<rparr>" by blast
  then have c': "f_canSubscribe (nodes s' n)" using c by simp
  have set: "set_canSubscribe n True s = Some s'"
    using t tc by (simp add: set_canSubscribe_def)
  have l': "log s' = log s @ Call_ensureSubscription n # evs @
                          Call_triggerChange n False False # evs'"
    using l lg by (simp add: upd_node_def)
  show "\<exists>s' evs evs'. set_canSubscribe n True s = Some s' \<and>
               f_canSubscribe (nodes s' n) \<and>
               log s' = log s @ Call_ensureSubscription n # evs @
                          Call_triggerChange n False False # evs' \<and>
               filter is_triggerChange evs = [] \<and> filter is_refreshNode evs = []"
    using set c' l' f
    by - (rule exI [of _ s'], rule exI [of _ evs], rule exI [of _ evs'], simp)
qed

theorem canSubscribe_setter_witness:
  "slot_allocated demo_subscribed 1 \<and>
   delegation_path (nodes demo_subscribed) 1 [] \<and>
   f_canSubscribe (nodes demo_subscribed 1) \<and>
   set_canSubscribe 1 True demo_subscribed = Some demo_subscribed \<and>
   map_option (\<lambda>s. drop (length (log demo_subscribed)) (log s))
       (set_canSubscribe 1 False demo_subscribed) =
     Some [Call_ensureSubscription 1, Call_unsubscribe 1] \<and>
   map_option (\<lambda>s. f_subscription (nodes s 1)) (set_canSubscribe 1 False demo_subscribed) =
     Some None \<and>
   map_option (\<lambda>s. drop (length (log demo_subscribed)) (log s))
       (Option.bind (set_canSubscribe 1 False demo_subscribed) (set_canSubscribe 1 False)) =
     Some [Call_ensureSubscription 1, Call_unsubscribe 1] \<and>
   map_option (\<lambda>s. drop (length (log demo_subscribed)) (log s))
       (Option.bind (set_canSubscribe 1 False demo_subscribed)
          (\<lambda>s. set_canSubscribe 1 True (run_microtasks s))) =
     Some [Call_ensureSubscription 1, Call_unsubscribe 1, Dispose 7,
           Return_ensureSubscription 1 True,
           Call_ensureSubscription 1, Call_subscribe 1,
           Call_triggerChange 1 False False, RefreshNode 0 1 False False]"
proof -
  have a: "slot_allocated demo_subscribed 1"
    and p: "delegation_path (nodes demo_subscribed) 1 []"
    and c: "f_canSubscribe (nodes demo_subscribed 1)"
    by code_simp+
  have rest: "map_option (\<lambda>s. drop (length (log demo_subscribed)) (log s))
       (set_canSubscribe 1 False demo_subscribed) =
     Some [Call_ensureSubscription 1, Call_unsubscribe 1]"
    "map_option (\<lambda>s. f_subscription (nodes s 1)) (set_canSubscribe 1 False demo_subscribed) =
     Some None"
    "map_option (\<lambda>s. drop (length (log demo_subscribed)) (log s))
       (Option.bind (set_canSubscribe 1 False demo_subscribed) (set_canSubscribe 1 False)) =
     Some [Call_ensureSubscription 1, Call_unsubscribe 1]"
    "map_option (\<lambda>s. drop (length (log demo_subscribed)) (log s))
       (Option.bind (set_canSubscribe 1 False demo_subscribed)
          (\<lambda>s. set_canSubscribe 1 True (run_microtasks s))) =
     Some [Call_ensureSubscription 1, Call_unsubscribe 1, Dispose 7,
           Return_ensureSubscription 1 True,
           Call_ensureSubscription 1, Call_subscribe 1,
           Call_triggerChange 1 False False, RefreshNode 0 1 False False]"
    by code_simp+
  from canSubscribe_setter [OF a p, of True] c
  have "set_canSubscribe 1 True demo_subscribed = Some demo_subscribed" by simp
  then show ?thesis using a p c rest by simp
qed

section \<open>Disposal\<close>

text \<open>
  Running the microtasks only ever adds to the log and never touches a subscription slot, and
  every microtask that is queued is run: an \<^verbatim>\<open>unsubscribe\<close> that resumes with a Disposable
  disposes it.
\<close>

lemma run_frame_log: "\<exists>evs. log (run_frame f out s) = log s @ evs"
  by (induction f out s rule: run_frame.induct) (simp_all add: emit_def upd_node_def)

lemma run_frame_slot:
  "f_subscription (nodes (run_frame f out s) a) = f_subscription (nodes s a)"
  by (induction f out s rule: run_frame.induct)
     (simp_all add: emit_def upd_node_def set_gate_slot_def split: gated_method.splits)

lemma settle_microtasks: "\<exists>new. microtasks (settle p out s) = microtasks s @ new"
  by (simp add: settle_def split: pstate.splits)

lemma run_frame_microtasks: "\<exists>new. microtasks (run_frame f out s) = microtasks s @ new"
proof (induction f out s rule: run_frame.induct)
  case (1 n r s)
  show ?case using settle_microtasks [of r "Fulfilled None" s] by simp
next
  case (2 n r subscription s)
  show ?case
    using settle_microtasks [of r "Fulfilled None" "emit (Dispose subscription) s"]
    by (simp add: emit_def)
next
  case (3 n r s)
  show ?case using settle_microtasks [of r Rejected s] by simp
next
  case (4 n r v s)
  show ?case
    using settle_microtasks
      [of r "Fulfilled None" "emit (Return_ensureSubscription n True) s"]
    by (simp add: emit_def)
next
  case (5 n r s)
  show ?case
    using settle_microtasks [of r Rejected "emit (Return_ensureSubscription n False) s"]
    by (simp add: emit_def)
next
  case (6 m n g out s)
  show ?case
    using settle_microtasks [of g out "upd_node n (set_gate_slot m None) s"]
    by (simp add: upd_node_def)
qed

lemma run_n_log: "\<exists>evs. log (run_n k s) = log s @ evs"
proof (induction k arbitrary: s)
  case 0
  show ?case by simp
next
  case (Suc k)
  show ?case
  proof (cases "microtasks s")
    case Nil
    then show ?thesis by simp
  next
    case (Cons t rest)
    let ?s' = "run_frame (fst t) (snd t) (s\<lparr>microtasks := rest\<rparr>)"
    from run_frame_log [of "fst t" "snd t" "s\<lparr>microtasks := rest\<rparr>"]
    obtain e1 where e1: "log ?s' = log s @ e1" by auto
    from Suc.IH [of ?s'] obtain e2 where "log (run_n k ?s') = log ?s' @ e2" by blast
    then have "log (run_n (Suc k) s) = log s @ (e1 @ e2)"
      using Cons e1 by simp
    then show ?thesis by blast
  qed
qed

lemma run_n_slot: "f_subscription (nodes (run_n k s) a) = f_subscription (nodes s a)"
proof (induction k arbitrary: s)
  case 0
  show ?case by simp
next
  case (Suc k)
  show ?case
  proof (cases "microtasks s")
    case Nil
    then show ?thesis by simp
  next
    case (Cons t rest)
    then show ?thesis
      by (simp add: Suc.IH run_frame_slot)
  qed
qed

lemma run_n_disposes:
  "(UnsubscribeResume m r, Fulfilled (Some d)) \<in> set (microtasks s) \<Longrightarrow>
   pending_work s \<le> k \<Longrightarrow>
   \<exists>evs. log (run_n k s) = log s @ evs \<and> Dispose d \<in> set evs"
proof (induction k arbitrary: s)
  case 0
  then show ?case by (simp add: pending_work_def)
next
  case (Suc k)
  from Suc.prems(1) obtain t rest where Cons: "microtasks s = t # rest"
    by (cases "microtasks s") auto
  let ?s0 = "s\<lparr>microtasks := rest\<rparr>"
  let ?s' = "run_frame (fst t) (snd t) ?s0"
  have w: "Suc (pending_work ?s') = pending_work s"
    using Cons by (simp add: pending_work_run_frame) (simp add: pending_work_def)
  have run: "run_n (Suc k) s = run_n k ?s'" using Cons by simp
  show ?case
  proof (cases "t = (UnsubscribeResume m r, Fulfilled (Some d))")
    case True
    then have "log ?s' = log s @ [Dispose d]" by (simp add: emit_def)
    moreover from run_n_log [of k ?s'] obtain e2 where "log (run_n k ?s') = log ?s' @ e2"
      by blast
    ultimately have "log (run_n (Suc k) s) = log s @ (Dispose d # e2)"
      using run by simp
    then show ?thesis by (intro exI [of _ "Dispose d # e2"]) simp
  next
    case False
    with Suc.prems(1) Cons have "(UnsubscribeResume m r, Fulfilled (Some d)) \<in> set rest"
      by auto
    moreover from run_frame_microtasks [of "fst t" "snd t" ?s0]
    obtain new where "microtasks ?s' = rest @ new" by auto
    ultimately have q: "(UnsubscribeResume m r, Fulfilled (Some d)) \<in> set (microtasks ?s')"
      by simp
    have "pending_work ?s' \<le> k" using w Suc.prems(2) by simp
    from Suc.IH [OF q this] obtain e2 where
      e2: "log (run_n k ?s') = log ?s' @ e2" "Dispose d \<in> set e2" by blast
    from run_frame_log [of "fst t" "snd t" ?s0]
    obtain e1 where e1: "log ?s' = log s @ e1" by auto
    have "log (run_n (Suc k) s) = log s @ (e1 @ e2)" using run e1 e2 by simp
    then show ?thesis using e2(2) by (intro exI [of _ "e1 @ e2"]) simp
  qed
qed

lemma dispose_Pending:
  assumes sl: "f_subscription (nodes s n) = Some p" and lt: "p < next_pid s"
    and pe: "promises s p = Pending"
  shows "dispose n s =
     s\<lparr>nodes := (nodes s)(n := (nodes s n)\<lparr>f_subscription := None\<rparr>),
       promises := (promises s)(next_pid s := Pending),
       next_pid := Suc (next_pid s),
       reactions := reactions s @ [(p, UnsubscribeResume n (next_pid s))],
       log := log s @ Call_unsubscribe n #
                (case f_disposable (nodes s n) of None \<Rightarrow> [] | Some l \<Rightarrow> [Dispose l])\<rparr>"
  by (cases "f_disposable (nodes s n)")
     (simp_all add: dispose_def unsubscribe_Pending [OF sl lt pe] emit_def)

text \<open>
  C5: dispose a node whose subscription is pending, the microtask queue being empty.
  \<^verbatim>\<open>unsubscribe\<close> is called first: it clears the slot and waits for the pending result. Then
  the listener registrations made at construction are disposed, and nothing more happens
  until the subscription resolves. Once it does, the Disposable it yields, if any, is
  disposed, whatever else was waiting for that promise; the slot stays empty. So no resource
  obtained by \<^verbatim>\<open>subscribe()\<close> outlives the disposal.
\<close>

theorem dispose_releases_pending_subscription:
  assumes sl: "f_subscription (nodes s n) = Some p" and pe: "promises s p = Pending"
    and lt: "p < next_pid s" and m: "microtasks s = []"
  shows "f_subscription (nodes (dispose n s) n) = None \<and>
         log (dispose n s) =
           log s @ Call_unsubscribe n #
             (case f_disposable (nodes s n) of None \<Rightarrow> [] | Some l \<Rightarrow> [Dispose l]) \<and>
         run_microtasks (dispose n s) = dispose n s \<and>
         promises (dispose n s) p = Pending \<and>
         (\<exists>evs. log (run_microtasks (settle p out (dispose n s))) = log (dispose n s) @ evs \<and>
            (\<forall>d. out = Fulfilled (Some d) \<longrightarrow> Dispose d \<in> set evs)) \<and>
         f_subscription (nodes (run_microtasks (settle p out (dispose n s))) n) = None"
proof -
  note D = dispose_Pending [OF sl lt pe]
  have ne: "p \<noteq> next_pid s" using lt by simp
  have 1: "f_subscription (nodes (dispose n s) n) = None" by (simp add: D)
  have 2: "log (dispose n s) =
           log s @ Call_unsubscribe n #
             (case f_disposable (nodes s n) of None \<Rightarrow> [] | Some l \<Rightarrow> [Dispose l])"
    by (simp add: D)
  have 3: "run_microtasks (dispose n s) = dispose n s"
    by (rule run_microtasks_Nil) (simp add: D m)
  have 4: "promises (dispose n s) p = Pending" using pe ne by (simp add: D)
  have q: "(UnsubscribeResume n (next_pid s), out) \<in> set (microtasks (settle p out (dispose n s)))"
  proof -
    have "microtasks (settle p out (dispose n s)) =
        map (\<lambda>r. (snd r, out)) (filter (\<lambda>r. fst r = p) (reactions s)) @
        [(UnsubscribeResume n (next_pid s), out)]"
      using 4 m by (simp add: settle_def) (simp add: D)
    then show ?thesis by simp
  qed
  have 5: "\<exists>evs. log (run_microtasks (settle p out (dispose n s))) = log (dispose n s) @ evs \<and>
            (\<forall>d. out = Fulfilled (Some d) \<longrightarrow> Dispose d \<in> set evs)"
  proof (cases "\<exists>d. out = Fulfilled (Some d)")
    case True
    then obtain d where d: "out = Fulfilled (Some d)" by blast
    from run_n_disposes [OF q [unfolded d] order_refl] obtain evs where
      "log (run_microtasks (settle p (Fulfilled (Some d)) (dispose n s))) =
         log (settle p (Fulfilled (Some d)) (dispose n s)) @ evs"
      "Dispose d \<in> set evs"
      unfolding run_microtasks_def by blast
    then show ?thesis using d by (intro exI [of _ evs]) simp
  next
    case False
    from run_n_log [of "pending_work (settle p out (dispose n s))" "settle p out (dispose n s)"]
    obtain evs where
      "log (run_microtasks (settle p out (dispose n s))) = log (settle p out (dispose n s)) @ evs"
      unfolding run_microtasks_def by blast
    then show ?thesis using False by (intro exI [of _ evs]) simp
  qed
  have 6: "f_subscription (nodes (run_microtasks (settle p out (dispose n s))) n) = None"
    using 1 by (simp add: run_microtasks_def run_n_slot)
  show ?thesis using 1 2 3 4 5 6 by blast
qed



theorem dispose_releases_pending_subscription_witness:
  "f_subscription (nodes demo_pending 1) = Some 0 \<and>
   promises demo_pending 0 = Pending \<and>
   0 < next_pid demo_pending \<and>
   microtasks demo_pending = [] \<and>
   log (dispose 1 demo_pending) =
     [Call_ensureSubscription 1, Call_subscribe 1, Call_unsubscribe 1, Dispose 100] \<and>
   f_subscription (nodes (dispose 1 demo_pending) 1) = None \<and>
   log (run_microtasks (settle 0 (Fulfilled (Some 7)) (dispose 1 demo_pending))) =
     [Call_ensureSubscription 1, Call_subscribe 1, Call_unsubscribe 1, Dispose 100,
      Return_ensureSubscription 1 True, Dispose 7] \<and>
   f_subscription
     (nodes (run_microtasks (settle 0 (Fulfilled (Some 7)) (dispose 1 demo_pending))) 1) = None"
proof -
  have h: "f_subscription (nodes demo_pending 1) = Some 0" "promises demo_pending 0 = Pending"
    "0 < next_pid demo_pending" "microtasks demo_pending = []"
    by code_simp+
  have v: "log (dispose 1 demo_pending) =
     [Call_ensureSubscription 1, Call_subscribe 1, Call_unsubscribe 1, Dispose 100]"
    "log (run_microtasks (settle 0 (Fulfilled (Some 7)) (dispose 1 demo_pending))) =
     [Call_ensureSubscription 1, Call_subscribe 1, Call_unsubscribe 1, Dispose 100,
      Return_ensureSubscription 1 True, Dispose 7]"
    by code_simp+
  from dispose_releases_pending_subscription [OF h, of "Fulfilled (Some 7)"]
  have "f_subscription (nodes (dispose 1 demo_pending) 1) = None"
    "f_subscription
      (nodes (run_microtasks (settle 0 (Fulfilled (Some 7)) (dispose 1 demo_pending))) 1) = None"
    by simp_all
  then show ?thesis using h v by simp
qed

end
